theory Spec2Isabelle
  imports Complex_Main "HOL-Library.AList" "HOL-Library.Sublist"
begin

section \<open>The configuration trees of \<open>memos/mem_cube/utils.py\<close>\<close>

text \<open>
  \<open>merge_config_with_default\<close> works on the trees that
  \<open>model_dump(mode="json")\<close> returns: \<open>None\<close>, booleans, integers, finite floats
  (only their truth value is ever read, so a float is the rational it denotes),
  strings, lists and dictionaries with string keys.

  A dictionary is an association list in insertion order. Reading a key takes its
  first entry (\<open>map_of\<close>), assigning a key replaces that entry in place or appends a
  new one (\<open>AList.update\<close>), exactly as a Python \<open>dict\<close> keeps its order.
\<close>

datatype json =
    JNull
  | JBool bool
  | JInt int
  | JFloat rat
  | JStr string
  | JList "json list"
  | JObj "(string \<times> json) list"

type_synonym dict = "(string \<times> json) list"

text \<open>The exceptions the function can leave with.\<close>

datatype py_error =
    KeyError string
  | TypeError
  | AttributeError
  | ValidationError

text \<open>Sequencing of statements that may raise: the first exception ends the call.\<close>

definition and_then :: "py_error + 'a \<Rightarrow> ('a \<Rightarrow> py_error + 'b) \<Rightarrow> py_error + 'b" where
  "and_then r f = (case r of Inl e \<Rightarrow> Inl e | Inr x \<Rightarrow> f x)"

subsection \<open>The Python operations the function uses\<close>

text \<open>\<open>bool(v)\<close>, as \<open>if v\<close> and \<open>not v\<close> read it.\<close>

fun truthy :: "json \<Rightarrow> bool" where
  "truthy JNull = False"
| "truthy (JBool b) = b"
| "truthy (JInt n) = (n \<noteq> 0)"
| "truthy (JFloat q) = (q \<noteq> 0)"
| "truthy (JStr s) = (s \<noteq> [])"
| "truthy (JList xs) = (xs \<noteq> [])"
| "truthy (JObj d) = (d \<noteq> [])"

text \<open>
  \<open>k in v\<close>: key membership for a dictionary, substring test for a string, element
  test for a list, \<open>TypeError\<close> for a value that is not a container.
\<close>

fun py_in :: "string \<Rightarrow> json \<Rightarrow> py_error + bool" where
  "py_in k (JObj d) = Inr (map_of d k \<noteq> None)"
| "py_in k (JStr s) = Inr (sublist k s)"
| "py_in k (JList xs) = Inr (JStr k \<in> set xs)"
| "py_in k JNull = Inl TypeError"
| "py_in k (JBool b) = Inl TypeError"
| "py_in k (JInt n) = Inl TypeError"
| "py_in k (JFloat q) = Inl TypeError"

text \<open>\<open>v.get(k, dflt)\<close>: only a dictionary has the method.\<close>

fun py_get :: "json \<Rightarrow> string \<Rightarrow> json \<Rightarrow> py_error + json" where
  "py_get (JObj d) k dflt = Inr (case map_of d k of None \<Rightarrow> dflt | Some x \<Rightarrow> x)"
| "py_get JNull k dflt = Inl AttributeError"
| "py_get (JBool b) k dflt = Inl AttributeError"
| "py_get (JInt n) k dflt = Inl AttributeError"
| "py_get (JFloat q) k dflt = Inl AttributeError"
| "py_get (JStr s) k dflt = Inl AttributeError"
| "py_get (JList xs) k dflt = Inl AttributeError"

text \<open>
  \<open>v[k]\<close> with a string \<open>k\<close>: \<open>KeyError\<close> for a dictionary without the key,
  \<open>TypeError\<close> for every other value (a string or list wants an integer index, the
  rest is not subscriptable).
\<close>

fun py_getitem :: "json \<Rightarrow> string \<Rightarrow> py_error + json" where
  "py_getitem (JObj d) k = (case map_of d k of None \<Rightarrow> Inl (KeyError k) | Some x \<Rightarrow> Inr x)"
| "py_getitem JNull k = Inl TypeError"
| "py_getitem (JBool b) k = Inl TypeError"
| "py_getitem (JInt n) k = Inl TypeError"
| "py_getitem (JFloat q) k = Inl TypeError"
| "py_getitem (JStr s) k = Inl TypeError"
| "py_getitem (JList xs) k = Inl TypeError"

text \<open>\<open>v[k] = x\<close> with a string \<open>k\<close>; the updated container is returned.\<close>

fun py_setitem :: "json \<Rightarrow> string \<Rightarrow> json \<Rightarrow> py_error + json" where
  "py_setitem (JObj d) k x = Inr (JObj (AList.update k x d))"
| "py_setitem JNull k x = Inl TypeError"
| "py_setitem (JBool b) k x = Inl TypeError"
| "py_setitem (JInt n) k x = Inl TypeError"
| "py_setitem (JFloat q) k x = Inl TypeError"
| "py_setitem (JStr s) k x = Inl TypeError"
| "py_setitem (JList xs) k x = Inl TypeError"

text \<open>
  \<open>v.items()\<close>: each key once, with the value a lookup returns. An association list
  could repeat a key, a Python dictionary cannot, so shadowed entries are dropped.
\<close>

fun py_items :: "json \<Rightarrow> py_error + (string \<times> json) list" where
  "py_items (JObj d) = Inr (AList.clearjunk d)"
| "py_items JNull = Inl AttributeError"
| "py_items (JBool b) = Inl AttributeError"
| "py_items (JInt n) = Inl AttributeError"
| "py_items (JFloat q) = Inl AttributeError"
| "py_items (JStr s) = Inl AttributeError"
| "py_items (JList xs) = Inl AttributeError"

text \<open>
  \<open>copy.deepcopy\<close> returns an equal tree that shares no object with its argument.
  On values it is the identity; what it means for sharing is the subject of the
  store model further down.
\<close>

definition deepcopy :: "json \<Rightarrow> json" where
  "deepcopy v = v"

section \<open>\<open>merge_config_with_default\<close>\<close>

definition preserve_fields :: "string list" where
  "preserve_fields = [''user_id'', ''cube_id'', ''config_filename'', ''model_schema'']"

definition preserve_graph_fields :: "string set" where
  "preserve_graph_fields = {''auto_create'', ''user_name'', ''use_multi_db''}"

text \<open>
  Lines 81--86, the loop over \<open>default_graph_config.items()\<close>: every key outside
  \<open>preserve_graph_fields\<close> is assigned in \<open>merged_graph_config\<close>.
\<close>

fun overwrite_loop :: "(string \<times> json) list \<Rightarrow> json \<Rightarrow> py_error + json" where
  "overwrite_loop [] merged_graph_config = Inr merged_graph_config"
| "overwrite_loop ((key, val) # rest) merged_graph_config =
     (if key \<notin> preserve_graph_fields then
        and_then (py_setitem merged_graph_config key val) (overwrite_loop rest)
      else overwrite_loop rest merged_graph_config)"

text \<open>Lines 87--94, the switch from multi-database to single-database mode.\<close>

definition downgrade_rule :: "json \<Rightarrow> json \<Rightarrow> py_error + json" where
  "downgrade_rule default_graph_config merged_graph_config =
     and_then (py_get default_graph_config ''use_multi_db'' (JBool True)) (\<lambda>default_flag.
       if \<not> truthy default_flag then
         and_then (py_get merged_graph_config ''use_multi_db'' (JBool True)) (\<lambda>merged_flag.
           if truthy merged_flag then
             and_then (py_setitem merged_graph_config ''use_multi_db'' (JBool False)) (\<lambda>m1.
             and_then (py_get m1 ''db_name'' JNull) (\<lambda>old_db_name.
             and_then (py_setitem m1 ''user_name'' old_db_name) (\<lambda>m2.
             and_then (py_get default_graph_config ''db_name'' JNull) (\<lambda>default_db_name.
               py_setitem m2 ''db_name'' default_db_name))))
           else Inr merged_graph_config)
       else Inr merged_graph_config)"

text \<open>Lines 80--94: the merged \<open>graph_db\<close> configuration.\<close>

definition merge_graph_config :: "json \<Rightarrow> json \<Rightarrow> py_error + json" where
  "merge_graph_config existing_graph_config default_graph_config =
     and_then (py_items default_graph_config) (\<lambda>items.
     and_then (overwrite_loop items (deepcopy existing_graph_config))
       (downgrade_rule default_graph_config))"

text \<open>
  Lines 63--99. The result is \<open>preserved_graph_db\<close>, with \<open>None\<close> for Python's
  \<open>None\<close>. The second operand of each \<open>and\<close> is evaluated only when the first is true.
\<close>

definition preserve_graph_db :: "dict \<Rightarrow> dict \<Rightarrow> py_error + json option" where
  "preserve_graph_db existing_dict default_dict =
     (if map_of existing_dict ''text_mem'' \<noteq> None \<and> map_of default_dict ''text_mem'' \<noteq> None then
        and_then (py_getitem (JObj existing_dict) ''text_mem'') (\<lambda>existing_text_mem.
        and_then (py_get existing_text_mem ''config'' (JObj [])) (\<lambda>existing_text_config.
        and_then (py_getitem (JObj default_dict) ''text_mem'') (\<lambda>default_text_mem.
        and_then (py_get default_text_mem ''config'' (JObj [])) (\<lambda>default_text_config.
        and_then (py_in ''graph_db'' existing_text_config) (\<lambda>in_existing.
        and_then (if in_existing then py_in ''graph_db'' default_text_config else Inr False) (\<lambda>in_both.
          if in_both then
            and_then (py_getitem existing_text_config ''graph_db'') (\<lambda>existing_graph_db.
            and_then (py_getitem existing_graph_db ''config'') (\<lambda>existing_graph_config.
            and_then (py_getitem default_text_config ''graph_db'') (\<lambda>default_graph_db.
            and_then (py_getitem default_graph_db ''config'') (\<lambda>default_graph_config.
            and_then (merge_graph_config existing_graph_config default_graph_config) (\<lambda>merged_graph_config.
            and_then (py_getitem existing_text_config ''graph_db'') (\<lambda>existing_graph_db2.
            and_then (py_getitem existing_graph_db2 ''backend'') (\<lambda>backend.
              Inr (Some (JObj [(''backend'', backend), (''config'', merged_graph_config)])))))))))
          else Inr None))))))
      else Inr None)"

text \<open>
  Lines 105--108: the identity fields that \<open>existing_dict\<close> has are assigned in
  \<open>merged_dict\<close>. Python iterates a set here, in no fixed order; the four
  assignments are to different keys, so the order decides only where a new key is
  appended.
\<close>

fun restore_fields :: "string list \<Rightarrow> dict \<Rightarrow> dict \<Rightarrow> dict" where
  "restore_fields [] existing_dict merged_dict = merged_dict"
| "restore_fields (field # rest) existing_dict merged_dict =
     (case map_of existing_dict field of
        None \<Rightarrow> restore_fields rest existing_dict merged_dict
      | Some v \<Rightarrow> restore_fields rest existing_dict (AList.update field v merged_dict))"

text \<open>
  Lines 111--113: \<open>merged_dict["text_mem"]["config"]["graph_db"] = preserved_graph_db\<close>.
  The assignment changes the innermost dictionary in place; here the two enclosing
  dictionaries are rebuilt around it.
\<close>

definition restore_graph_db :: "json option \<Rightarrow> dict \<Rightarrow> py_error + dict" where
  "restore_graph_db preserved_graph_db merged_dict =
     (case preserved_graph_db of
        None \<Rightarrow> Inr merged_dict
      | Some p \<Rightarrow>
          if truthy p \<and> map_of merged_dict ''text_mem'' \<noteq> None then
            and_then (py_getitem (JObj merged_dict) ''text_mem'') (\<lambda>text_mem.
            and_then (py_getitem text_mem ''config'') (\<lambda>config.
            and_then (py_setitem config ''graph_db'' p) (\<lambda>config'.
            and_then (py_setitem text_mem ''config'' config') (\<lambda>text_mem'.
              Inr (AList.update ''text_mem'' text_mem' merged_dict)))))
          else Inr merged_dict)"

text \<open>Lines 59--113: the tree that is handed to \<open>model_validate\<close>.\<close>

definition merge_dicts :: "dict \<Rightarrow> dict \<Rightarrow> py_error + dict" where
  "merge_dicts existing_dict default_dict =
     and_then (preserve_graph_db existing_dict default_dict) (\<lambda>preserved_graph_db.
       restore_graph_db preserved_graph_db
         (restore_fields preserve_fields existing_dict default_dict))"

text \<open>
  The whole function. \<open>GeneralMemCubeConfig\<close> is defined in \<open>memos.configs.mem_cube\<close>,
  so its two methods are parameters: \<open>model_dump\<close> turns a record into its tree, and
  \<open>model_validate\<close> builds a record from a tree or raises \<open>ValidationError\<close>
  (\<open>None\<close>). The log calls do not change the result.
\<close>

definition merge_config_with_default ::
  "('cfg \<Rightarrow> dict) \<Rightarrow> (dict \<Rightarrow> 'cfg option) \<Rightarrow> 'cfg \<Rightarrow> 'cfg \<Rightarrow> py_error + 'cfg" where
  "merge_config_with_default model_dump model_validate existing_config default_config =
     and_then (merge_dicts (model_dump existing_config) (model_dump default_config)) (\<lambda>merged_dict.
       case model_validate merged_dict of
         None \<Rightarrow> Inl ValidationError
       | Some merged_config \<Rightarrow> Inr merged_config)"

section \<open>Reading the trees\<close>

text \<open>A field of a tree; only a dictionary has fields.\<close>

fun field :: "json \<Rightarrow> string \<Rightarrow> json option" where
  "field (JObj d) k = map_of d k"
| "field JNull k = None"
| "field (JBool b) k = None"
| "field (JInt n) k = None"
| "field (JFloat q) k = None"
| "field (JStr s) k = None"
| "field (JList xs) k = None"

text \<open>The value at the end of a path of keys, when every step is a key of a dictionary.\<close>

fun get_path :: "json \<Rightarrow> string list \<Rightarrow> json option" where
  "get_path v [] = Some v"
| "get_path v (k # ks) = (case field v k of None \<Rightarrow> None | Some x \<Rightarrow> get_path x ks)"

text \<open>The value of \<open>v.get(k, dflt)\<close> when \<open>v\<close> is a dictionary.\<close>

definition get_or :: "json \<Rightarrow> string \<Rightarrow> json \<Rightarrow> json" where
  "get_or v k dflt = (case field v k of None \<Rightarrow> dflt | Some x \<Rightarrow> x)"

definition graph_db_path :: "string list" where
  "graph_db_path = [''text_mem'', ''config'', ''graph_db'']"

text \<open>Field \<open>k\<close> of \<open>text_mem.config.graph_db.config\<close>.\<close>

definition graph_field :: "dict \<Rightarrow> string \<Rightarrow> json option" where
  "graph_field t k = get_path (JObj t) (graph_db_path @ [''config'', k])"

section \<open>The same function on a store of objects\<close>

text \<open>
  Python dictionaries and lists are objects: two names can hold the same one, and an
  item assignment through either is seen through both. To say which objects the
  function changes, the trees are laid out in a store. A value is a scalar or a
  reference to a container; the store is the list of containers, the container of
  reference \<open>a\<close> at position \<open>a\<close>, and a new container is put at the end.
\<close>

datatype val =
    VNull
  | VBool bool
  | VInt int
  | VFloat rat
  | VStr string
  | VRef nat

datatype obj =
    ODict "(string \<times> val) list"
  | OList "val list"

type_synonym store = "obj list"

text \<open>
  A step returns a value or raises. Two more outcomes belong to the model only:
  \<open>NoFuel\<close> when the bound on the depth of a deep copy is used up, and
  \<open>Dangling\<close> for a reference to no object, which Python never holds.
\<close>

datatype 'a res =
    Ok 'a
  | Raised py_error
  | NoFuel
  | Dangling

type_synonym 'a st = "store \<Rightarrow> 'a res \<times> store"

definition st_return :: "'a \<Rightarrow> 'a st" where
  "st_return x h = (Ok x, h)"

definition st_bind :: "'a st \<Rightarrow> ('a \<Rightarrow> 'b st) \<Rightarrow> 'b st" where
  "st_bind m f h =
     (case m h of
        (Ok x, h') \<Rightarrow> f x h'
      | (Raised e, h') \<Rightarrow> (Raised e, h')
      | (NoFuel, h') \<Rightarrow> (NoFuel, h')
      | (Dangling, h') \<Rightarrow> (Dangling, h'))"

text \<open>What a value is, for an operation that looks at it.\<close>

datatype shape =
    Scalar
  | StrV string
  | DictV nat "(string \<times> val) list"
  | ListV nat "val list"
  | NoObject

fun view :: "store \<Rightarrow> val \<Rightarrow> shape" where
  "view h (VRef a) =
     (if a < length h then (case h ! a of ODict d \<Rightarrow> DictV a d | OList xs \<Rightarrow> ListV a xs)
      else NoObject)"
| "view h (VStr s) = StrV s"
| "view h VNull = Scalar"
| "view h (VBool b) = Scalar"
| "view h (VInt n) = Scalar"
| "view h (VFloat q) = Scalar"

text \<open>A new container; the dictionary displays \<open>{}\<close> and \<open>{"backend": ..., "config": ...}\<close>.\<close>

definition st_new :: "obj \<Rightarrow> val st" where
  "st_new ob h = (Ok (VRef (length h)), h @ [ob])"

text \<open>\<open>bool(v)\<close>, \<open>k in v\<close>, \<open>v.get(k, dflt)\<close>, \<open>v[k]\<close> and \<open>v.items()\<close> read the store.\<close>

definition st_truthy :: "val \<Rightarrow> bool st" where
  "st_truthy v h =
     (case v of
        VNull \<Rightarrow> (Ok False, h)
      | VBool b \<Rightarrow> (Ok b, h)
      | VInt n \<Rightarrow> (Ok (n \<noteq> 0), h)
      | VFloat q \<Rightarrow> (Ok (q \<noteq> 0), h)
      | VStr s \<Rightarrow> (Ok (s \<noteq> []), h)
      | VRef a \<Rightarrow>
          (case view h v of
             DictV a d \<Rightarrow> (Ok (d \<noteq> []), h)
           | ListV a xs \<Rightarrow> (Ok (xs \<noteq> []), h)
           | Scalar \<Rightarrow> (Dangling, h)
           | StrV s \<Rightarrow> (Dangling, h)
           | NoObject \<Rightarrow> (Dangling, h)))"

definition st_in :: "string \<Rightarrow> val \<Rightarrow> bool st" where
  "st_in k v h =
     (case view h v of
        DictV a d \<Rightarrow> (Ok (map_of d k \<noteq> None), h)
      | StrV s \<Rightarrow> (Ok (sublist k s), h)
      | ListV a xs \<Rightarrow> (Ok (VStr k \<in> set xs), h)
      | Scalar \<Rightarrow> (Raised TypeError, h)
      | NoObject \<Rightarrow> (Dangling, h))"

definition st_get :: "val \<Rightarrow> string \<Rightarrow> val \<Rightarrow> val st" where
  "st_get v k dflt h =
     (case view h v of
        DictV a d \<Rightarrow> (Ok (case map_of d k of None \<Rightarrow> dflt | Some x \<Rightarrow> x), h)
      | StrV s \<Rightarrow> (Raised AttributeError, h)
      | ListV a xs \<Rightarrow> (Raised AttributeError, h)
      | Scalar \<Rightarrow> (Raised AttributeError, h)
      | NoObject \<Rightarrow> (Dangling, h))"

text \<open>
  \<open>v.get(k, {})\<close>: the method is looked up first (\<open>AttributeError\<close> unless \<open>v\<close> is a
  dictionary), then the argument \<open>{}\<close> is created, a new object whether or not it
  is the result.
\<close>

definition st_get_or_new_dict :: "val \<Rightarrow> string \<Rightarrow> val st" where
  "st_get_or_new_dict v k h =
     (case view h v of
        DictV a d \<Rightarrow>
          (Ok (case map_of d k of None \<Rightarrow> VRef (length h) | Some x \<Rightarrow> x), h @ [ODict []])
      | StrV s \<Rightarrow> (Raised AttributeError, h)
      | ListV a xs \<Rightarrow> (Raised AttributeError, h)
      | Scalar \<Rightarrow> (Raised AttributeError, h)
      | NoObject \<Rightarrow> (Dangling, h))"

definition st_getitem :: "val \<Rightarrow> string \<Rightarrow> val st" where
  "st_getitem v k h =
     (case view h v of
        DictV a d \<Rightarrow> (case map_of d k of None \<Rightarrow> (Raised (KeyError k), h) | Some x \<Rightarrow> (Ok x, h))
      | StrV s \<Rightarrow> (Raised TypeError, h)
      | ListV a xs \<Rightarrow> (Raised TypeError, h)
      | Scalar \<Rightarrow> (Raised TypeError, h)
      | NoObject \<Rightarrow> (Dangling, h))"

text \<open>\<open>v[k] = x\<close> is the one operation that changes an object.\<close>

definition st_setitem :: "val \<Rightarrow> string \<Rightarrow> val \<Rightarrow> unit st" where
  "st_setitem v k x h =
     (case view h v of
        DictV a d \<Rightarrow> (Ok (), h[a := ODict (AList.update k x d)])
      | StrV s \<Rightarrow> (Raised TypeError, h)
      | ListV a xs \<Rightarrow> (Raised TypeError, h)
      | Scalar \<Rightarrow> (Raised TypeError, h)
      | NoObject \<Rightarrow> (Dangling, h))"

definition st_items :: "val \<Rightarrow> (string \<times> val) list st" where
  "st_items v h =
     (case view h v of
        DictV a d \<Rightarrow> (Ok (AList.clearjunk d), h)
      | StrV s \<Rightarrow> (Raised AttributeError, h)
      | ListV a xs \<Rightarrow> (Raised AttributeError, h)
      | Scalar \<Rightarrow> (Raised AttributeError, h)
      | NoObject \<Rightarrow> (Dangling, h))"

text \<open>A step for each element of a list, from left to right.\<close>

fun st_map :: "('a \<Rightarrow> 'b st) \<Rightarrow> 'a list \<Rightarrow> 'b list st" where
  "st_map f [] = st_return []"
| "st_map f (x # xs) = st_bind (f x) (\<lambda>y. st_bind (st_map f xs) (\<lambda>ys. st_return (y # ys)))"

text \<open>
  \<open>copy.deepcopy\<close>: a scalar or string is returned as it is; for a container the items
  are copied and put into a new container. The recursion follows the references of
  the store, so it is bounded by a depth \<open>n\<close>. (Python also keeps a memo so that an
  object reached twice is copied once; the dumped trees share nothing, and the memo
  changes which new objects are equal, never which old objects are written.)
\<close>

fun st_deepcopy :: "nat \<Rightarrow> val \<Rightarrow> val st" where
  "st_deepcopy 0 v = (\<lambda>h. (NoFuel, h))"
| "st_deepcopy (Suc n) v = (\<lambda>h.
     case view h v of
       DictV a d \<Rightarrow>
         st_bind (st_map (\<lambda>(k, x). st_bind (st_deepcopy n x) (\<lambda>y. st_return (k, y))) d)
           (\<lambda>d'. st_new (ODict d')) h
     | ListV a xs \<Rightarrow> st_bind (st_map (st_deepcopy n) xs) (\<lambda>xs'. st_new (OList xs')) h
     | StrV s \<Rightarrow> (Ok v, h)
     | Scalar \<Rightarrow> (Ok v, h)
     | NoObject \<Rightarrow> (Dangling, h))"

text \<open>Lines 81--86, 87--94, 80--94 and 63--99 as before, now as steps on the store.\<close>

fun st_overwrite_loop :: "(string \<times> val) list \<Rightarrow> val \<Rightarrow> unit st" where
  "st_overwrite_loop [] merged_graph_config = st_return ()"
| "st_overwrite_loop ((key, val) # rest) merged_graph_config =
     (if key \<notin> preserve_graph_fields then
        st_bind (st_setitem merged_graph_config key val)
          (\<lambda>_. st_overwrite_loop rest merged_graph_config)
      else st_overwrite_loop rest merged_graph_config)"

definition st_downgrade_rule :: "val \<Rightarrow> val \<Rightarrow> unit st" where
  "st_downgrade_rule default_graph_config merged_graph_config =
     st_bind (st_get default_graph_config ''use_multi_db'' (VBool True)) (\<lambda>default_flag.
     st_bind (st_truthy default_flag) (\<lambda>default_multi.
       if \<not> default_multi then
         st_bind (st_get merged_graph_config ''use_multi_db'' (VBool True)) (\<lambda>merged_flag.
         st_bind (st_truthy merged_flag) (\<lambda>merged_multi.
           if merged_multi then
             st_bind (st_setitem merged_graph_config ''use_multi_db'' (VBool False)) (\<lambda>_.
             st_bind (st_get merged_graph_config ''db_name'' VNull) (\<lambda>old_db_name.
             st_bind (st_setitem merged_graph_config ''user_name'' old_db_name) (\<lambda>_.
             st_bind (st_get default_graph_config ''db_name'' VNull) (\<lambda>default_db_name.
               st_setitem merged_graph_config ''db_name'' default_db_name))))
           else st_return ()))
       else st_return ()))"

definition st_merge_graph_config :: "nat \<Rightarrow> val \<Rightarrow> val \<Rightarrow> val st" where
  "st_merge_graph_config fuel existing_graph_config default_graph_config =
     st_bind (st_deepcopy fuel existing_graph_config) (\<lambda>merged_graph_config.
     st_bind (st_items default_graph_config) (\<lambda>items.
     st_bind (st_overwrite_loop items merged_graph_config) (\<lambda>_.
     st_bind (st_downgrade_rule default_graph_config merged_graph_config) (\<lambda>_.
       st_return merged_graph_config))))"

definition st_preserve_graph_db :: "nat \<Rightarrow> val \<Rightarrow> val \<Rightarrow> val option st" where
  "st_preserve_graph_db fuel existing_dict default_dict =
     st_bind (st_in ''text_mem'' existing_dict) (\<lambda>in_existing.
     st_bind (if in_existing then st_in ''text_mem'' default_dict else st_return False) (\<lambda>in_both.
       if in_both then
         st_bind (st_getitem existing_dict ''text_mem'') (\<lambda>existing_text_mem.
         st_bind (st_get_or_new_dict existing_text_mem ''config'') (\<lambda>existing_text_config.
         st_bind (st_getitem default_dict ''text_mem'') (\<lambda>default_text_mem.
         st_bind (st_get_or_new_dict default_text_mem ''config'') (\<lambda>default_text_config.
         st_bind (st_in ''graph_db'' existing_text_config) (\<lambda>graph_in_existing.
         st_bind (if graph_in_existing then st_in ''graph_db'' default_text_config
                  else st_return False) (\<lambda>graph_in_both.
           if graph_in_both then
             st_bind (st_getitem existing_text_config ''graph_db'') (\<lambda>existing_graph_db.
             st_bind (st_getitem existing_graph_db ''config'') (\<lambda>existing_graph_config.
             st_bind (st_getitem default_text_config ''graph_db'') (\<lambda>default_graph_db.
             st_bind (st_getitem default_graph_db ''config'') (\<lambda>default_graph_config.
             st_bind (st_merge_graph_config fuel existing_graph_config default_graph_config)
               (\<lambda>merged_graph_config.
             st_bind (st_getitem existing_text_config ''graph_db'') (\<lambda>existing_graph_db2.
             st_bind (st_getitem existing_graph_db2 ''backend'') (\<lambda>backend.
             st_bind (st_new (ODict [(''backend'', backend), (''config'', merged_graph_config)]))
               (\<lambda>preserved_graph_db. st_return (Some preserved_graph_db)))))))))
           else st_return None))))))
       else st_return None))"

text \<open>Lines 105--108 and 111--113.\<close>

fun st_restore_fields :: "string list \<Rightarrow> val \<Rightarrow> val \<Rightarrow> unit st" where
  "st_restore_fields [] existing_dict merged_dict = st_return ()"
| "st_restore_fields (field_name # rest) existing_dict merged_dict =
     st_bind (st_in field_name existing_dict) (\<lambda>present.
       if present then
         st_bind (st_getitem existing_dict field_name) (\<lambda>v.
         st_bind (st_setitem merged_dict field_name v) (\<lambda>_.
           st_restore_fields rest existing_dict merged_dict))
       else st_restore_fields rest existing_dict merged_dict)"

definition st_restore_graph_db :: "val option \<Rightarrow> val \<Rightarrow> unit st" where
  "st_restore_graph_db preserved_graph_db merged_dict =
     (case preserved_graph_db of
        None \<Rightarrow> st_return ()
      | Some p \<Rightarrow>
          st_bind (st_truthy p) (\<lambda>preserved.
          st_bind (if preserved then st_in ''text_mem'' merged_dict else st_return False) (\<lambda>both.
            if both then
              st_bind (st_getitem merged_dict ''text_mem'') (\<lambda>text_mem.
              st_bind (st_getitem text_mem ''config'') (\<lambda>config.
                st_setitem config ''graph_db'' p))
            else st_return ())))"

text \<open>Lines 59--113, from the two dumped dictionaries to \<open>merged_dict\<close>.\<close>

definition merge_store :: "nat \<Rightarrow> val \<Rightarrow> val \<Rightarrow> val st" where
  "merge_store fuel existing_dict default_dict =
     st_bind (st_preserve_graph_db fuel existing_dict default_dict) (\<lambda>preserved_graph_db.
     st_bind (st_deepcopy fuel default_dict) (\<lambda>merged_dict.
     st_bind (st_restore_fields preserve_fields existing_dict merged_dict) (\<lambda>_.
     st_bind (st_restore_graph_db preserved_graph_db merged_dict) (\<lambda>_.
       st_return merged_dict))))"

text \<open>
  The whole function. \<open>model_dump\<close> and \<open>model_validate\<close> are methods of
  \<open>GeneralMemCubeConfig\<close>, which is defined elsewhere; they are parameters, steps
  on the store like the rest.
\<close>

definition merge_config_store ::
  "nat \<Rightarrow> ('cfg \<Rightarrow> val st) \<Rightarrow> (val \<Rightarrow> 'cfg st) \<Rightarrow> 'cfg \<Rightarrow> 'cfg \<Rightarrow> 'cfg st" where
  "merge_config_store fuel model_dump model_validate existing_config default_config =
     st_bind (model_dump existing_config) (\<lambda>existing_dict.
     st_bind (model_dump default_config) (\<lambda>default_dict.
     st_bind (merge_store fuel existing_dict default_dict) model_validate))"

text \<open>The tree that a value stands for in a store, read down to depth \<open>n\<close>.\<close>

fun tree_of :: "nat \<Rightarrow> store \<Rightarrow> val \<Rightarrow> json option" where
  "tree_of 0 h v = None"
| "tree_of (Suc n) h VNull = Some JNull"
| "tree_of (Suc n) h (VBool b) = Some (JBool b)"
| "tree_of (Suc n) h (VInt i) = Some (JInt i)"
| "tree_of (Suc n) h (VFloat q) = Some (JFloat q)"
| "tree_of (Suc n) h (VStr s) = Some (JStr s)"
| "tree_of (Suc n) h (VRef a) =
     (if a < length h then
        (case h ! a of
           ODict d \<Rightarrow> map_option JObj (those (map (\<lambda>(k, x). map_option (Pair k) (tree_of n h x)) d))
         | OList xs \<Rightarrow> map_option JList (those (map (tree_of n h) xs)))
      else None)"

text \<open>The other way round: a tree laid out in the store, items before their container.\<close>

fun alloc :: "json \<Rightarrow> val st"
  and alloc_items :: "(string \<times> json) list \<Rightarrow> (string \<times> val) list st"
  and alloc_list :: "json list \<Rightarrow> val list st" where
  "alloc JNull = st_return VNull"
| "alloc (JBool b) = st_return (VBool b)"
| "alloc (JInt i) = st_return (VInt i)"
| "alloc (JFloat q) = st_return (VFloat q)"
| "alloc (JStr s) = st_return (VStr s)"
| "alloc (JList xs) = st_bind (alloc_list xs) (\<lambda>xs'. st_new (OList xs'))"
| "alloc (JObj d) = st_bind (alloc_items d) (\<lambda>d'. st_new (ODict d'))"
| "alloc_items [] = st_return []"
| "alloc_items ((k, x) # rest) =
     st_bind (alloc x) (\<lambda>y. st_bind (alloc_items rest) (\<lambda>ys. st_return ((k, y) # ys)))"
| "alloc_list [] = st_return []"
| "alloc_list (x # rest) =
     st_bind (alloc x) (\<lambda>y. st_bind (alloc_list rest) (\<lambda>ys. st_return (y # ys)))"

text \<open>
  Both trees laid out in an empty store, merged there, and the result read back; \<open>None\<close>
  when the merge does not return.
\<close>

definition merge_trees_in_store :: "nat \<Rightarrow> dict \<Rightarrow> dict \<Rightarrow> json option" where
  "merge_trees_in_store fuel existing_dict default_dict =
     (case st_bind (alloc (JObj existing_dict)) (\<lambda>e.
           st_bind (alloc (JObj default_dict)) (\<lambda>d. merge_store fuel e d)) [] of
        (Ok m, h) \<Rightarrow> tree_of fuel h m
      | (Raised e, h) \<Rightarrow> None
      | (NoFuel, h) \<Rightarrow> None
      | (Dangling, h) \<Rightarrow> None)"

subsection \<open>Notions for the proofs about the store\<close>

text \<open>The references held by a container.\<close>

fun refs :: "obj \<Rightarrow> nat set" where
  "refs (ODict d) = {a. VRef a \<in> snd ` set d}"
| "refs (OList xs) = {a. VRef a \<in> set xs}"

text \<open>A value that is not an object of the store \<open>h0\<close>.\<close>

definition fresh :: "store \<Rightarrow> val \<Rightarrow> bool" where
  "fresh h0 v = (case v of VRef a \<Rightarrow> length h0 \<le> a | _ \<Rightarrow> True)"

definition val_in :: "nat \<Rightarrow> nat \<Rightarrow> val \<Rightarrow> bool" where
  "val_in L U v = (case v of VRef a \<Rightarrow> L \<le> a \<and> a < U | _ \<Rightarrow> True)"

text \<open>Every container from position \<open>L\<close> on refers only to containers between \<open>L\<close> and itself.\<close>

definition new_ordered :: "nat \<Rightarrow> store \<Rightarrow> bool" where
  "new_ordered L h = (\<forall>a. L \<le> a \<and> a < length h \<longrightarrow> (\<forall>b \<in> refs (h ! a). L \<le> b \<and> b < a))"

text \<open>The store \<open>h'\<close> is \<open>h\<close> with such containers added.\<close>

definition grows :: "store \<Rightarrow> store \<Rightarrow> bool" where
  "grows h h' = (prefix h h' \<and> new_ordered (length h) h')"

text \<open>A step that leaves the objects of \<open>h0\<close> as they are, and whose result satisfies \<open>Q\<close>.\<close>

definition keeps_giving :: "store \<Rightarrow> 'a st \<Rightarrow> ('a \<Rightarrow> bool) \<Rightarrow> bool" where
  "keeps_giving h0 m Q =
     (\<forall>h r h'. prefix h0 h \<longrightarrow> m h = (r, h') \<longrightarrow> prefix h0 h' \<and> (\<forall>x. r = Ok x \<longrightarrow> Q x))"

text \<open>Two stores that differ at most in the entries \<open>ks\<close> of the dictionary \<open>x\<close>.\<close>

definition same_except :: "val \<Rightarrow> string set \<Rightarrow> store \<Rightarrow> store \<Rightarrow> bool" where
  "same_except x ks h h' =
     (length h' = length h \<and>
      (\<forall>a < length h.
         if x = VRef a then
           (case h ! a of
              ODict d \<Rightarrow> (\<exists>d'. h' ! a = ODict d' \<and> (\<forall>k. k \<notin> ks \<longrightarrow> map_of d' k = map_of d k))
            | OList xs \<Rightarrow> h' ! a = h ! a)
         else h' ! a = h ! a))"

section \<open>Sample configurations\<close>

text \<open>
  A dumped configuration with the given top-level fields, fields of the text memory's
  configuration, graph database backend and graph database configuration.
\<close>

definition cube_tree :: "dict \<Rightarrow> dict \<Rightarrow> string \<Rightarrow> dict \<Rightarrow> dict" where
  "cube_tree top_fields text_config backend graph_config =
     top_fields @ [(''text_mem'', JObj [(''backend'', JStr ''tree_text''),
       (''config'', JObj (text_config @
          [(''graph_db'', JObj [(''backend'', JStr backend), (''config'', JObj graph_config)])]))])]"

text \<open>The downgrade example: multi-database existing, single-database default.\<close>

definition downgrade_existing :: dict where
  "downgrade_existing = cube_tree [(''user_id'', JStr ''u1'')] [] ''neo4j''
     [(''use_multi_db'', JBool True), (''db_name'', JStr ''A''), (''user_name'', JStr ''old'')]"

definition downgrade_default :: dict where
  "downgrade_default = cube_tree [(''user_id'', JStr ''root''), (''cube_id'', JStr ''c0'')] [] ''neo4j''
     [(''use_multi_db'', JBool False), (''db_name'', JStr ''B'')]"

definition downgrade_merged :: dict where
  "downgrade_merged = cube_tree [(''user_id'', JStr ''u1''), (''cube_id'', JStr ''c0'')] [] ''neo4j''
     [(''use_multi_db'', JBool False), (''db_name'', JStr ''B''), (''user_name'', JStr ''B'')]"

text \<open>A multi-database default met by an existing configuration of another backend.\<close>

definition multi_existing :: dict where
  "multi_existing =
     cube_tree [(''user_id'', JStr ''u1''), (''cube_id'', JStr ''c1'')]
       [(''extractor_llm'', JStr ''old-model'')] ''nebular''
       [(''auto_create'', JBool False), (''user_name'', JStr ''alice''),
        (''use_multi_db'', JBool False), (''uri'', JStr ''bolt://old''), (''space'', JStr ''shared'')]"

definition multi_default :: dict where
  "multi_default =
     cube_tree [(''user_id'', JStr ''root''), (''cube_id'', JStr ''c0'')]
       [(''extractor_llm'', JStr ''new-model'')] ''neo4j''
       [(''auto_create'', JBool True), (''user_name'', JStr ''root''),
        (''use_multi_db'', JBool True), (''uri'', JStr ''bolt://new''), (''db_name'', JStr ''neo4j'')]"

definition multi_merged :: dict where
  "multi_merged =
     cube_tree [(''user_id'', JStr ''u1''), (''cube_id'', JStr ''c1'')]
       [(''extractor_llm'', JStr ''new-model'')] ''nebular''
       [(''auto_create'', JBool False), (''user_name'', JStr ''alice''),
        (''use_multi_db'', JBool False), (''uri'', JStr ''bolt://new''), (''space'', JStr ''shared''),
        (''db_name'', JStr ''neo4j'')]"

text \<open>Single-database mode on both sides.\<close>

definition single_existing :: dict where
  "single_existing = cube_tree [(''user_id'', JStr ''u1'')] [] ''neo4j''
     [(''use_multi_db'', JBool False), (''db_name'', JStr ''A''), (''user_name'', JStr ''u1'')]"

definition single_default :: dict where
  "single_default = cube_tree [(''user_id'', JStr ''root'')] [] ''neo4j''
     [(''use_multi_db'', JBool False), (''db_name'', JStr ''B''), (''user_name'', JStr ''root'')]"

definition single_merged :: dict where
  "single_merged = cube_tree [(''user_id'', JStr ''u1'')] [] ''neo4j''
     [(''use_multi_db'', JBool False), (''db_name'', JStr ''B''), (''user_name'', JStr ''u1'')]"

text \<open>A default whose graph database configuration has no \<open>use_multi_db\<close> key.\<close>

definition noflag_default :: dict where
  "noflag_default = cube_tree [(''user_id'', JStr ''root'')] [] ''neo4j'' [(''db_name'', JStr ''B'')]"

definition noflag_merged :: dict where
  "noflag_merged = cube_tree [(''user_id'', JStr ''u1'')] [] ''neo4j''
     [(''use_multi_db'', JBool True), (''db_name'', JStr ''B''), (''user_name'', JStr ''old'')]"

text \<open>An existing configuration whose text memory has no graph database.\<close>

definition plain_existing :: dict where
  "plain_existing =
     [(''user_id'', JStr ''u1''),
      (''text_mem'', JObj [(''backend'', JStr ''naive_text''),
         (''config'', JObj [(''memory_filename'', JStr ''mem.json'')])])]"

definition plain_merged :: dict where
  "plain_merged = cube_tree [(''user_id'', JStr ''u1''), (''cube_id'', JStr ''c0'')] [] ''neo4j''
     [(''use_multi_db'', JBool False), (''db_name'', JStr ''B'')]"

text \<open>A schema that asks for a \<open>cube_id\<close>, to see a validation fail.\<close>

definition needs_cube_id :: "dict \<Rightarrow> dict option" where
  "needs_cube_id t = (if map_of t ''cube_id'' = None then None else Some t)"

text \<open>
  A store that holds the two trees of the downgrade example: the existing
  configuration at reference 4, the default at reference 9.
\<close>

definition sample_store :: store where
  "sample_store =
     [ODict [(''use_multi_db'', VBool True), (''db_name'', VStr ''A''), (''user_name'', VStr ''old'')],
      ODict [(''backend'', VStr ''neo4j''), (''config'', VRef 0)],
      ODict [(''graph_db'', VRef 1)],
      ODict [(''backend'', VStr ''tree_text''), (''config'', VRef 2)],
      ODict [(''user_id'', VStr ''u1''), (''text_mem'', VRef 3)],
      ODict [(''use_multi_db'', VBool False), (''db_name'', VStr ''B'')],
      ODict [(''backend'', VStr ''neo4j''), (''config'', VRef 5)],
      ODict [(''graph_db'', VRef 6)],
      ODict [(''backend'', VStr ''tree_text''), (''config'', VRef 7)],
      ODict [(''user_id'', VStr ''root''), (''cube_id'', VStr ''c0''), (''text_mem'', VRef 8)]]"


section \<open>Facts about the operations\<close>

lemma and_then_Inr [simp]: "and_then (Inr x) f = f x"
  by (simp add: and_then_def)

lemma and_then_Inl [simp]: "and_then (Inl e) f = Inl e"
  by (simp add: and_then_def)

lemma and_then_eq_Inr: "and_then r f = Inr y \<longleftrightarrow> (\<exists>x. r = Inr x \<and> f x = Inr y)"
  by (cases r) simp_all

lemma py_setitem_Inr: "py_setitem v k x = Inr v' \<longleftrightarrow> (\<exists>d. v = JObj d \<and> v' = JObj (AList.update k x d))"
  by (cases v) auto

lemma py_getitem_Inr: "py_getitem v k = Inr x \<longleftrightarrow> (\<exists>d. v = JObj d \<and> map_of d k = Some x)"
  by (cases v) (auto split: option.splits)

lemma py_getitem_field: "py_getitem v k = Inr x \<longleftrightarrow> field v k = Some x"
  by (cases v) (auto split: option.splits)

lemma py_items_Inr: "py_items v = Inr xs \<longleftrightarrow> (\<exists>d. v = JObj d \<and> xs = AList.clearjunk d)"
  by (cases v) auto

lemma field_setitem:
  "py_setitem v k x = Inr v' \<Longrightarrow> field v' k' = (if k' = k then Some x else field v k')"
  by (auto simp: py_setitem_Inr update_conv')

lemma overwrite_loop_field:
  "overwrite_loop items v = Inr v' \<Longrightarrow> distinct (map fst items) \<Longrightarrow>
   field v' k = (if k \<notin> preserve_graph_fields \<and> map_of items k \<noteq> None then map_of items k else field v k)"
proof (induction items arbitrary: v)
  case Nil
  then show ?case by simp
next
  case (Cons p rest)
  obtain key val where p: "p = (key, val)" by (cases p)
  have dist: "distinct (map fst rest)" and fresh: "map_of rest key = None"
    using Cons.prems(2) by (auto simp: p map_of_eq_None_iff)
  show ?case
  proof (cases "key \<in> preserve_graph_fields")
    case True
    with Cons.prems(1) have "overwrite_loop rest v = Inr v'" by (simp add: p)
    from Cons.IH [OF this dist] True show ?thesis by (auto simp: p)
  next
    case False
    with Cons.prems(1) obtain v1 where
      set: "py_setitem v key val = Inr v1" and rest: "overwrite_loop rest v1 = Inr v'"
      by (auto simp: p and_then_eq_Inr)
    from Cons.IH [OF rest dist] field_setitem [OF set] False fresh
    show ?thesis by (auto simp: p)
  qed
qed

lemma overwrite_loop_returns:
  "\<exists>m'. overwrite_loop items (JObj m) = Inr (JObj m')"
  by (induction items arbitrary: m) auto

lemma py_get_field:
  "py_get v k dflt = Inr x \<longleftrightarrow> (\<exists>d. v = JObj d) \<and> x = (case field v k of None \<Rightarrow> dflt | Some y \<Rightarrow> y)"
  by (cases v) auto

lemma py_get_dict: "py_get (JObj d) k dflt = Inr (get_or (JObj d) k dflt)"
  by (simp add: get_or_def)

subsection \<open>The three ways through the downgrade rule\<close>

lemma downgrade_rule_skip_dict:
  "truthy (get_or (JObj d) ''use_multi_db'' (JBool True)) \<Longrightarrow> downgrade_rule (JObj d) v = Inr v"
  unfolding downgrade_rule_def py_get_dict and_then_Inr by simp

lemma downgrade_rule_enter:
  "\<not> truthy (get_or (JObj d) ''use_multi_db'' (JBool True)) \<Longrightarrow>
   downgrade_rule (JObj d) v =
     and_then (py_get v ''use_multi_db'' (JBool True)) (\<lambda>merged_flag.
           if truthy merged_flag then
             and_then (py_setitem v ''use_multi_db'' (JBool False)) (\<lambda>m1.
             and_then (py_get m1 ''db_name'' JNull) (\<lambda>old_db_name.
             and_then (py_setitem m1 ''user_name'' old_db_name) (\<lambda>m2.
             and_then (py_get (JObj d) ''db_name'' JNull) (\<lambda>default_db_name.
               py_setitem m2 ''db_name'' default_db_name))))
           else Inr v)"
  unfolding downgrade_rule_def py_get_dict and_then_Inr by simp

lemma downgrade_rule_noop_dict:
  "\<not> truthy (get_or (JObj d) ''use_multi_db'' (JBool True)) \<Longrightarrow>
   \<not> truthy (get_or (JObj m) ''use_multi_db'' (JBool True)) \<Longrightarrow>
   downgrade_rule (JObj d) (JObj m) = Inr (JObj m)"
  unfolding downgrade_rule_enter py_get_dict and_then_Inr by simp

lemma downgrade_rule_fires_dict:
  "\<not> truthy (get_or (JObj d) ''use_multi_db'' (JBool True)) \<Longrightarrow>
   truthy (get_or (JObj m) ''use_multi_db'' (JBool True)) \<Longrightarrow>
   downgrade_rule (JObj d) (JObj m) =
     Inr (JObj (AList.update ''db_name'' (get_or (JObj d) ''db_name'' JNull)
            (AList.update ''user_name'' (get_or (JObj m) ''db_name'' JNull)
              (AList.update ''use_multi_db'' (JBool False) m))))"
  unfolding downgrade_rule_enter py_get_dict and_then_Inr
  by (simp add: get_or_def update_conv')

lemma downgrade_rule_merged_dict:
  "\<not> truthy (get_or (JObj d) ''use_multi_db'' (JBool True)) \<Longrightarrow>
   downgrade_rule (JObj d) v = Inr v' \<Longrightarrow> \<exists>m. v = JObj m"
  unfolding downgrade_rule_enter by (cases v) simp_all

subsection \<open>The steps of the merge\<close>

lemma restore_fields_map_of:
  "map_of (restore_fields fs e m) k =
     (if k \<in> set fs \<and> map_of e k \<noteq> None then map_of e k else map_of m k)"
  by (induction fs arbitrary: m) (auto simp: update_conv' split: option.splits)

lemma py_in_False: "py_in k v = Inr False \<Longrightarrow> field v k = None"
  by (cases v) auto

lemma preserve_graph_db_inv:
  assumes "preserve_graph_db e d = Inr r"
  shows "(r = None \<and> (get_path (JObj e) graph_db_path = None \<or> get_path (JObj d) graph_db_path = None)) \<or>
     (\<exists>eg dg mg b.
      get_path (JObj e) (graph_db_path @ [''config'']) = Some eg \<and>
      get_path (JObj d) (graph_db_path @ [''config'']) = Some dg \<and>
      get_path (JObj e) (graph_db_path @ [''backend'']) = Some b \<and>
      merge_graph_config eg dg = Inr mg \<and>
      r = Some (JObj [(''backend'', b), (''config'', mg)]))"
proof (cases "map_of e ''text_mem'' \<noteq> None \<and> map_of d ''text_mem'' \<noteq> None")
  case False
  have "preserve_graph_db e d = Inr None"
    unfolding preserve_graph_db_def using False by (rule if_not_P)
  with assms have "r = None" by simp
  with False show ?thesis by (auto simp: graph_db_path_def)
next
  case True
  then obtain etm dtm where etm: "map_of e ''text_mem'' = Some etm" and dtm: "map_of d ''text_mem'' = Some dtm"
    by auto
  from assms etm dtm obtain etc dtc in_e in_both where
    etc: "py_get etm ''config'' (JObj []) = Inr etc" and
    dtc: "py_get dtm ''config'' (JObj []) = Inr dtc" and
    in_e: "py_in ''graph_db'' etc = Inr in_e" and
    in_both: "(if in_e then py_in ''graph_db'' dtc else Inr False) = Inr in_both" and
    body: "(if in_both then
            and_then (py_getitem etc ''graph_db'') (\<lambda>existing_graph_db.
            and_then (py_getitem existing_graph_db ''config'') (\<lambda>existing_graph_config.
            and_then (py_getitem dtc ''graph_db'') (\<lambda>default_graph_db.
            and_then (py_getitem default_graph_db ''config'') (\<lambda>default_graph_config.
            and_then (merge_graph_config existing_graph_config default_graph_config) (\<lambda>merged_graph_config.
            and_then (py_getitem etc ''graph_db'') (\<lambda>existing_graph_db2.
            and_then (py_getitem existing_graph_db2 ''backend'') (\<lambda>backend.
              Inr (Some (JObj [(''backend'', backend), (''config'', merged_graph_config)])))))))))
          else Inr None) = Inr r"
    unfolding preserve_graph_db_def if_P [OF True] by (simp add: and_then_eq_Inr) blast
  show ?thesis
  proof (cases in_both)
    case False
    with body have r: "r = None" by simp
    have "field etc ''graph_db'' = None \<or> field dtc ''graph_db'' = None"
      using in_e in_both False by (cases in_e) (auto dest: py_in_False)
    moreover have "field etm ''config'' = None \<or> field etm ''config'' = Some etc"
      using etc by (auto simp: py_get_field split: option.splits)
    moreover have "field dtm ''config'' = None \<or> field dtm ''config'' = Some dtc"
      using dtc by (auto simp: py_get_field split: option.splits)
    ultimately show ?thesis using r etm dtm by (auto simp: graph_db_path_def)
  next
    case True
    with body obtain eg egc dg dgc mg b where
      "field etc ''graph_db'' = Some eg" "field eg ''config'' = Some egc"
      "field dtc ''graph_db'' = Some dg" "field dg ''config'' = Some dgc"
      "merge_graph_config egc dgc = Inr mg" "field eg ''backend'' = Some b"
      "r = Some (JObj [(''backend'', b), (''config'', mg)])"
      by (auto simp: and_then_eq_Inr py_getitem_field)
    moreover have "field etm ''config'' = Some etc"
      using etc \<open>field etc ''graph_db'' = Some eg\<close> by (auto simp: py_get_field split: option.splits)
    moreover have "field dtm ''config'' = Some dtc"
      using dtc \<open>field dtc ''graph_db'' = Some dg\<close> by (auto simp: py_get_field split: option.splits)
    ultimately show ?thesis using etm dtm by (simp add: graph_db_path_def)
  qed
qed

lemma merge_graph_config_inv:
  assumes "merge_graph_config eg dg = Inr mg"
  shows "\<exists>dd v1. dg = JObj dd \<and> downgrade_rule (JObj dd) v1 = Inr mg \<and>
     (\<forall>k. field v1 k = (if k \<notin> preserve_graph_fields \<and> field dg k \<noteq> None then field dg k else field eg k))"
proof -
  from assms obtain items v1 where
    items: "py_items dg = Inr items" and loop: "overwrite_loop items (deepcopy eg) = Inr v1"
    and rule: "downgrade_rule dg v1 = Inr mg"
    by (auto simp: merge_graph_config_def and_then_eq_Inr)
  from items obtain dd where dd: "dg = JObj dd" "items = AList.clearjunk dd"
    by (auto simp: py_items_Inr)
  have "field v1 k = (if k \<notin> preserve_graph_fields \<and> field dg k \<noteq> None then field dg k else field eg k)" for k
    using overwrite_loop_field [OF loop, of k] dd
    by (simp add: map_of_clearjunk deepcopy_def)
  with rule dd show ?thesis by blast
qed

lemma restore_graph_db_None: "restore_graph_db None md = Inr md"
  by (simp add: restore_graph_db_def)

lemma restore_graph_db_Some:
  assumes "restore_graph_db (Some p) md = Inr m" and "truthy p" and "map_of md ''text_mem'' \<noteq> None"
  shows "\<exists>tm cfg. map_of md ''text_mem'' = Some (JObj tm) \<and> map_of tm ''config'' = Some (JObj cfg) \<and>
     m = AList.update ''text_mem'' (JObj (AList.update ''config'' (JObj (AList.update ''graph_db'' p cfg)) tm)) md"
proof -
  from assms have "and_then (py_getitem (JObj md) ''text_mem'') (\<lambda>text_mem.
            and_then (py_getitem text_mem ''config'') (\<lambda>config.
            and_then (py_setitem config ''graph_db'' p) (\<lambda>config'.
            and_then (py_setitem text_mem ''config'' config') (\<lambda>text_mem'.
              Inr (AList.update ''text_mem'' text_mem' md))))) = Inr m"
    by (simp add: restore_graph_db_def)
  then obtain text_mem config config' text_mem' where
    "py_getitem (JObj md) ''text_mem'' = Inr text_mem" "py_getitem text_mem ''config'' = Inr config"
    "py_setitem config ''graph_db'' p = Inr config'" "py_setitem text_mem ''config'' config' = Inr text_mem'"
    "m = AList.update ''text_mem'' text_mem' md"
    by (auto simp: and_then_eq_Inr)
  then show ?thesis
    by (auto simp: py_getitem_Inr py_setitem_Inr split: option.splits)
qed

lemma merge_dicts_inv:
  assumes "merge_dicts e d = Inr m"
  shows "(m = restore_fields preserve_fields e d \<and>
            (get_path (JObj e) graph_db_path = None \<or> get_path (JObj d) graph_db_path = None)) \<or>
     (\<exists>eg dg mg b tm cfg.
        get_path (JObj e) (graph_db_path @ [''config'']) = Some eg \<and>
        get_path (JObj d) (graph_db_path @ [''config'']) = Some dg \<and>
        get_path (JObj e) (graph_db_path @ [''backend'']) = Some b \<and>
        merge_graph_config eg dg = Inr mg \<and>
        map_of d ''text_mem'' = Some (JObj tm) \<and> map_of tm ''config'' = Some (JObj cfg) \<and>
        m = AList.update ''text_mem'' (JObj (AList.update ''config''
              (JObj (AList.update ''graph_db'' (JObj [(''backend'', b), (''config'', mg)]) cfg)) tm))
              (restore_fields preserve_fields e d))"
proof -
  let ?md = "restore_fields preserve_fields e d"
  from assms obtain r where r: "preserve_graph_db e d = Inr r" and m: "restore_graph_db r ?md = Inr m"
    by (auto simp: merge_dicts_def and_then_eq_Inr)
  have tm_same: "map_of ?md ''text_mem'' = map_of d ''text_mem''"
    by (simp only: restore_fields_map_of) (simp add: preserve_fields_def)
  from preserve_graph_db_inv [OF r] show ?thesis
  proof
    assume "r = None \<and> (get_path (JObj e) graph_db_path = None \<or> get_path (JObj d) graph_db_path = None)"
    with m show ?thesis by (auto simp: restore_graph_db_None)
  next
    assume "\<exists>eg dg mg b.
      get_path (JObj e) (graph_db_path @ [''config'']) = Some eg \<and>
      get_path (JObj d) (graph_db_path @ [''config'']) = Some dg \<and>
      get_path (JObj e) (graph_db_path @ [''backend'']) = Some b \<and>
      merge_graph_config eg dg = Inr mg \<and>
      r = Some (JObj [(''backend'', b), (''config'', mg)])"
    then obtain eg dg mg b where *:
      "get_path (JObj e) (graph_db_path @ [''config'']) = Some eg"
      "get_path (JObj d) (graph_db_path @ [''config'']) = Some dg"
      "get_path (JObj e) (graph_db_path @ [''backend'']) = Some b"
      "merge_graph_config eg dg = Inr mg"
      "r = Some (JObj [(''backend'', b), (''config'', mg)])"
      by blast
    from *(2) have "map_of d ''text_mem'' \<noteq> None"
      by (auto simp: graph_db_path_def split: option.splits)
    with tm_same have "map_of ?md ''text_mem'' \<noteq> None" by simp
    from restore_graph_db_Some [OF m [unfolded *(5)] _ this] tm_same * show ?thesis
      by auto
  qed
qed

subsection \<open>Paths into the merged tree\<close>

lemma get_path_append:
  "get_path v (p @ q) = (case get_path v p of None \<Rightarrow> None | Some x \<Rightarrow> get_path x q)"
  by (induction p arbitrary: v) (auto split: option.splits)

lemma graph_field_config:
  "get_path (JObj t) (graph_db_path @ [''config'']) = Some g \<Longrightarrow> graph_field t k = field g k"
proof -
  have "graph_field t k = get_path (JObj t) ((graph_db_path @ [''config'']) @ [k])"
    by (simp add: graph_field_def)
  also assume "get_path (JObj t) (graph_db_path @ [''config'']) = Some g"
  then have "get_path (JObj t) ((graph_db_path @ [''config'']) @ [k]) = field g k"
    by (simp only: get_path_append) (simp split: option.splits)
  finally show ?thesis .
qed

lemma text_mem_not_preserved: "''text_mem'' \<notin> set preserve_fields"
  by (simp add: preserve_fields_def)

lemma restored_map_of:
  "k \<notin> set preserve_fields \<Longrightarrow> map_of (restore_fields preserve_fields e d) k = map_of d k"
  by (simp only: restore_fields_map_of) simp

lemma get_path_graph_db_merged:
  assumes "m = AList.update ''text_mem'' (JObj (AList.update ''config''
              (JObj (AList.update ''graph_db'' p cfg)) tm)) md"
  shows "get_path (JObj m) (graph_db_path @ ks) = get_path p ks"
  by (simp add: assms graph_db_path_def update_conv')

lemma merge_dicts_graph:
  assumes "merge_dicts e d = Inr m"
    and "get_path (JObj e) graph_db_path \<noteq> None"
    and "get_path (JObj d) graph_db_path \<noteq> None"
  shows "\<exists>eg dd v1 mg.
    get_path (JObj e) (graph_db_path @ [''config'']) = Some eg \<and>
    get_path (JObj d) (graph_db_path @ [''config'']) = Some (JObj dd) \<and>
    get_path (JObj m) (graph_db_path @ [''config'']) = Some mg \<and>
    downgrade_rule (JObj dd) v1 = Inr mg \<and>
    (\<forall>k. field v1 k = (if k \<notin> preserve_graph_fields \<and> map_of dd k \<noteq> None then map_of dd k else field eg k))"
proof -
  from merge_dicts_inv [OF assms(1)] assms(2,3) obtain eg dg mg p where
    eg: "get_path (JObj e) (graph_db_path @ [''config'']) = Some eg" and
    dg: "get_path (JObj d) (graph_db_path @ [''config'']) = Some dg" and
    mg: "merge_graph_config eg dg = Inr mg" and
    m: "get_path (JObj m) (graph_db_path @ [''config'']) = Some mg"
    by (auto simp: get_path_graph_db_merged)
  from merge_graph_config_inv [OF mg] obtain dd v1 where
    "dg = JObj dd" "downgrade_rule (JObj dd) v1 = Inr mg"
    "\<And>k. field v1 k = (if k \<notin> preserve_graph_fields \<and> field dg k \<noteq> None then field dg k else field eg k)"
    by blast
  with eg dg m show ?thesis by auto
qed

lemma graph_field_Some:
  "graph_field t k = Some v \<Longrightarrow> get_path (JObj t) graph_db_path \<noteq> None"
  by (auto simp: graph_field_def get_path_append split: option.splits)

lemma protected_fields [simp]:
  "''auto_create'' \<in> preserve_graph_fields" "''user_name'' \<in> preserve_graph_fields"
  "''use_multi_db'' \<in> preserve_graph_fields" "''db_name'' \<notin> preserve_graph_fields"
  by (simp_all add: preserve_graph_fields_def)

lemma downgrade_reads_overwritten_db_name:
  assumes "merge_dicts existing_dict default_dict = Inr merged_dict"
    and "graph_field existing_dict ''use_multi_db'' = Some flag" and "truthy flag"
    and "graph_field default_dict ''use_multi_db'' = Some (JBool False)"
  shows "graph_field merged_dict ''use_multi_db'' = Some (JBool False) \<and>
     graph_field merged_dict ''user_name'' =
       Some (case graph_field default_dict ''db_name'' of
               Some v \<Rightarrow> v
             | None \<Rightarrow> (case graph_field existing_dict ''db_name'' of Some v \<Rightarrow> v | None \<Rightarrow> JNull)) \<and>
     graph_field merged_dict ''db_name'' =
       Some (case graph_field default_dict ''db_name'' of Some v \<Rightarrow> v | None \<Rightarrow> JNull)"
proof -
  have e: "get_path (JObj existing_dict) graph_db_path \<noteq> None"
    using assms(2) by (rule graph_field_Some)
  have d: "get_path (JObj default_dict) graph_db_path \<noteq> None"
    using assms(4) by (rule graph_field_Some)
  obtain eg dd v1 mg where
    eg: "get_path (JObj existing_dict) (graph_db_path @ [''config'']) = Some eg" and
    dd: "get_path (JObj default_dict) (graph_db_path @ [''config'']) = Some (JObj dd)" and
    mg: "get_path (JObj merged_dict) (graph_db_path @ [''config'']) = Some mg" and
    rule: "downgrade_rule (JObj dd) v1 = Inr mg" and
    v1: "\<And>k. field v1 k = (if k \<notin> preserve_graph_fields \<and> map_of dd k \<noteq> None then map_of dd k else field eg k)"
    using merge_dicts_graph [OF assms(1) e d] by blast
  have "map_of dd ''use_multi_db'' = Some (JBool False)"
    using assms(4) graph_field_config [OF dd] by simp
  then have fires: "\<not> truthy (get_or (JObj dd) ''use_multi_db'' (JBool True))"
    by (simp add: get_or_def)
  from downgrade_rule_merged_dict [OF fires rule] obtain mm where mm: "v1 = JObj mm" by blast
  have "field v1 ''use_multi_db'' = Some flag"
    using v1 [of "''use_multi_db''"] assms(2) graph_field_config [OF eg] by simp
  then have "truthy (get_or (JObj mm) ''use_multi_db'' (JBool True))"
    using assms(3) by (simp add: get_or_def mm)
  from downgrade_rule_fires_dict [OF fires this] rule
  have mg_eq: "mg = JObj (AList.update ''db_name'' (get_or (JObj dd) ''db_name'' JNull)
            (AList.update ''user_name'' (get_or (JObj mm) ''db_name'' JNull)
              (AList.update ''use_multi_db'' (JBool False) mm)))"
    by (simp add: mm)
  have db: "map_of mm ''db_name'' = (if map_of dd ''db_name'' \<noteq> None then map_of dd ''db_name'' else field eg ''db_name'')"
    using v1 [of "''db_name''"] by (simp add: mm)
  show ?thesis
    unfolding graph_field_config [OF eg] graph_field_config [OF dd] graph_field_config [OF mg] mg_eq
    using db by (auto simp: update_conv' get_or_def split: option.splits)
qed

subsection \<open>When the merge returns\<close>

lemma field_SomeD: "field v k = Some x \<Longrightarrow> \<exists>d. v = JObj d \<and> map_of d k = Some x"
  by (cases v) auto

lemma downgrade_rule_returns: "\<exists>m'. downgrade_rule (JObj dd) (JObj m) = Inr (JObj m')"
proof (cases "truthy (get_or (JObj dd) ''use_multi_db'' (JBool True))")
  case True
  then show ?thesis by (simp add: downgrade_rule_skip_dict)
next
  case False
  then show ?thesis
    by (cases "truthy (get_or (JObj m) ''use_multi_db'' (JBool True))")
      (simp_all add: downgrade_rule_noop_dict downgrade_rule_fires_dict)
qed

lemma merge_graph_config_returns: "\<exists>m'. merge_graph_config (JObj eg) (JObj dd) = Inr (JObj m')"
proof -
  obtain m1 where "overwrite_loop (AList.clearjunk dd) (JObj eg) = Inr (JObj m1)"
    using overwrite_loop_returns by blast
  moreover obtain m2 where "downgrade_rule (JObj dd) (JObj m1) = Inr (JObj m2)"
    using downgrade_rule_returns by blast
  ultimately show ?thesis by (simp add: merge_graph_config_def deepcopy_def)
qed

lemma merge_dicts_returns:
  assumes "get_path (JObj existing_dict) (graph_db_path @ [''config'']) = Some (JObj eg)"
    and "get_path (JObj existing_dict) (graph_db_path @ [''backend'']) = Some backend"
    and "get_path (JObj default_dict) (graph_db_path @ [''config'']) = Some (JObj dd)"
  shows "\<exists>merged_dict. merge_dicts existing_dict default_dict = Inr merged_dict"
proof -
  from assms(1,2) obtain etm etc egd where
    e1: "map_of existing_dict ''text_mem'' = Some (JObj etm)" and e2: "map_of etm ''config'' = Some (JObj etc)" and
    e3: "map_of etc ''graph_db'' = Some (JObj egd)" and e4: "map_of egd ''config'' = Some (JObj eg)" and
    e5: "map_of egd ''backend'' = Some backend"
    by (auto simp: graph_db_path_def split: option.splits dest!: field_SomeD)
  from assms(3) obtain dtm dtc dgd where
    d1: "map_of default_dict ''text_mem'' = Some (JObj dtm)" and d2: "map_of dtm ''config'' = Some (JObj dtc)" and
    d3: "map_of dtc ''graph_db'' = Some (JObj dgd)" and d4: "map_of dgd ''config'' = Some (JObj dd)"
    by (auto simp: graph_db_path_def split: option.splits dest!: field_SomeD)
  obtain mg where mg: "merge_graph_config (JObj eg) (JObj dd) = Inr (JObj mg)"
    using merge_graph_config_returns by blast
  have p: "preserve_graph_db existing_dict default_dict =
      Inr (Some (JObj [(''backend'', backend), (''config'', JObj mg)]))"
    by (simp add: preserve_graph_db_def e1 e2 e3 e4 e5 d1 d2 d3 d4 mg)
  have "map_of (restore_fields preserve_fields existing_dict default_dict) ''text_mem'' = Some (JObj dtm)"
    by (simp add: restored_map_of [OF text_mem_not_preserved] d1)
  then show ?thesis
    by (simp add: merge_dicts_def p restore_graph_db_def d2)
qed

lemma merge_config_with_default_Inr:
  "merge_config_with_default model_dump model_validate existing_config default_config = Inr merged_config \<longleftrightarrow>
   (\<exists>merged_dict. merge_dicts (model_dump existing_config) (model_dump default_config) = Inr merged_dict \<and>
       model_validate merged_dict = Some merged_config)"
  by (auto simp: merge_config_with_default_def and_then_eq_Inr split: option.splits)

section \<open>Facts about the store\<close>

lemma st_bind_Ok: "m h = (Ok x, h1) \<Longrightarrow> st_bind m f h = f x h1"
  by (simp add: st_bind_def)

lemma st_bind_cases:
  assumes "st_bind m f h = (r, h')"
  obtains (ok) x h1 where "m h = (Ok x, h1)" "f x h1 = (r, h')"
  | (stop) r1 where "m h = (r1, h')" "\<And>x. r1 \<noteq> Ok x" "\<And>y. r \<noteq> Ok y"
proof -
  obtain r1 h1 where m: "m h = (r1, h1)" by (cases "m h")
  show thesis
  proof (cases r1)
    case (Ok x)
    with m assms ok show ?thesis by (simp add: st_bind_def)
  next
    case (Raised e)
    with m assms stop [of r1] show ?thesis by (auto simp: st_bind_def)
  next
    case NoFuel
    with m assms stop [of r1] show ?thesis by (auto simp: st_bind_def)
  next
    case Dangling
    with m assms stop [of r1] show ?thesis by (auto simp: st_bind_def)
  qed
qed

subsection \<open>Stores that only grow\<close>

lemma prefix_nth: "prefix h h' \<Longrightarrow> a < length h \<Longrightarrow> h' ! a = h ! a"
  by (auto simp: prefix_def nth_append)

lemma prefix_update_beyond: "prefix h0 h \<Longrightarrow> length h0 \<le> a \<Longrightarrow> prefix h0 (h[a := ob])"
  by (auto simp: prefix_def list_update_append)

lemma grows_refl: "grows h h"
  by (simp add: grows_def new_ordered_def)

lemma grows_length: "grows h h' \<Longrightarrow> length h \<le> length h'"
  by (simp add: grows_def prefix_length_le)

lemma new_orderedD:
  "new_ordered L h \<Longrightarrow> L \<le> a \<Longrightarrow> a < length h \<Longrightarrow> b \<in> refs (h ! a) \<Longrightarrow> L \<le> b \<and> b < a"
  unfolding new_ordered_def by blast

lemma new_orderedI:
  "(\<And>a b. L \<le> a \<Longrightarrow> a < length h \<Longrightarrow> b \<in> refs (h ! a) \<Longrightarrow> L \<le> b \<and> b < a) \<Longrightarrow> new_ordered L h"
  unfolding new_ordered_def by blast

lemma grows_trans:
  assumes "grows h h1" and "grows h1 h2"
  shows "grows h h2"
proof -
  have p1: "prefix h h1" and o1: "new_ordered (length h) h1"
    and p2: "prefix h1 h2" and o2: "new_ordered (length h1) h2"
    using assms by (simp_all add: grows_def)
  have p: "prefix h h2" using p1 p2 by (rule prefix_order.trans)
  have len: "length h \<le> length h1" using p1 by (rule prefix_length_le)
  have "new_ordered (length h) h2"
  proof (rule new_orderedI)
    fix a b assume a: "length h \<le> a" "a < length h2" and b: "b \<in> refs (h2 ! a)"
    show "length h \<le> b \<and> b < a"
    proof (cases "a < length h1")
      case True
      then have "h2 ! a = h1 ! a" using p2 by (simp add: prefix_nth)
      with b have "b \<in> refs (h1 ! a)" by simp
      with o1 a(1) True show ?thesis by (rule new_orderedD)
    next
      case False
      then have "length h1 \<le> a" by simp
      with o2 have "length h1 \<le> b \<and> b < a" using a(2) b by (rule new_orderedD)
      with len show ?thesis by simp
    qed
  qed
  with p show ?thesis by (simp add: grows_def)
qed

lemma val_in_mono: "val_in L U v \<Longrightarrow> L' \<le> L \<Longrightarrow> U \<le> U' \<Longrightarrow> val_in L' U' v"
  by (auto simp: val_in_def split: val.splits)

lemma grows_new:
  assumes "grows h h1" and "refs ob \<subseteq> {length h..<length h1}"
  shows "grows h (h1 @ [ob])"
proof -
  have p1: "prefix h h1" and o1: "new_ordered (length h) h1"
    using assms(1) by (simp_all add: grows_def)
  have "prefix h (h1 @ [ob])" using p1 by (rule prefix_order.trans) simp
  moreover have "new_ordered (length h) (h1 @ [ob])"
  proof (rule new_orderedI)
    fix a b assume a: "length h \<le> a" "a < length (h1 @ [ob])" and b: "b \<in> refs ((h1 @ [ob]) ! a)"
    show "length h \<le> b \<and> b < a"
    proof (cases "a < length h1")
      case True
      with b have "b \<in> refs (h1 ! a)" by (simp add: nth_append)
      with o1 a(1) True show ?thesis by (rule new_orderedD)
    next
      case False
      with a(2) have "a = length h1" by simp
      with b have "b \<in> refs ob" by simp
      with assms(2) \<open>a = length h1\<close> show ?thesis by auto
    qed
  qed
  ultimately show ?thesis by (simp add: grows_def)
qed

subsection \<open>What a deep copy allocates\<close>

lemma st_map_post:
  assumes f: "\<And>x h r h'. x \<in> set xs \<Longrightarrow> f x h = (r, h') \<Longrightarrow>
        grows h h' \<and> (\<forall>y. r = Ok y \<longrightarrow> Q (length h) (length h') y)"
    and mono: "\<And>L U L' U' y. Q L U y \<Longrightarrow> L' \<le> L \<Longrightarrow> U \<le> U' \<Longrightarrow> Q L' U' y"
    and run: "st_map f xs h = (r, h')"
  shows "grows h h' \<and> (\<forall>ys. r = Ok ys \<longrightarrow> list_all (Q (length h) (length h')) ys)"
  using f run
proof (induction xs arbitrary: h r h')
  case Nil
  then show ?case by (auto simp: st_return_def grows_refl)
next
  case (Cons x xs)
  from Cons.prems(2) have run: "st_bind (f x) (\<lambda>y. st_bind (st_map f xs) (\<lambda>ys. st_return (y # ys))) h = (r, h')"
    by simp
  have tail: "grows h h' \<and> (\<forall>y. r = Ok y \<longrightarrow> Q (length h) (length h') y)"
    if "z \<in> set xs" "f z h = (r, h')" for z h r h'
    using that Cons.prems(1) [of z h r h'] by simp
  from run show ?case
  proof (cases rule: st_bind_cases)
    case (ok y h1)
    from Cons.prems(1) [of x h "Ok y" h1] ok(1)
    have g1: "grows h h1" and q1: "Q (length h) (length h1) y" by auto
    from ok(2) show ?thesis
    proof (cases rule: st_bind_cases)
      case (ok ys h2)
      have "grows h1 h2 \<and> (\<forall>zs. Ok ys = Ok zs \<longrightarrow> list_all (Q (length h1) (length h2)) zs)"
        using tail ok(1) by (rule Cons.IH)
      then have g2: "grows h1 h2" and q2: "list_all (Q (length h1) (length h2)) ys" by auto
      have r: "r = Ok (y # ys)" "h' = h2" using ok(2) by (auto simp: st_return_def)
      have l1: "length h \<le> length h1" and l2: "length h1 \<le> length h2"
        using g1 g2 by (auto dest: grows_length)
      have "Q (length h) (length h2) y" by (rule mono [OF q1 le_refl l2])
      moreover have "Q (length h) (length h2) z" if z: "z \<in> set ys" for z
      proof -
        from q2 z have "Q (length h1) (length h2) z" by (simp add: list_all_iff)
        then show ?thesis using l1 le_refl by (rule mono)
      qed
      then have "list_all (Q (length h) (length h2)) ys" by (simp add: list_all_iff)
      ultimately show ?thesis using r grows_trans [OF g1 g2] by simp
    next
      case (stop r1)
      have "grows h1 h' \<and> (\<forall>zs. r1 = Ok zs \<longrightarrow> list_all (Q (length h1) (length h')) zs)"
        using tail stop(1) by (rule Cons.IH)
      then have "grows h h'" using g1 by (auto intro: grows_trans)
      with stop(3) show ?thesis by simp
    qed
  next
    case (stop r1)
    from Cons.prems(1) [of x h r1 h'] stop(1) have "grows h h'" by simp
    with stop(3) show ?thesis by simp
  qed
qed

lemma st_deepcopy_post:
  "st_deepcopy n v h = (r, h') \<Longrightarrow>
   grows h h' \<and> (\<forall>v'. r = Ok v' \<longrightarrow> val_in (length h) (length h') v')"
proof (induction n arbitrary: v h r h')
  case 0
  then show ?case by (auto simp: grows_refl)
next
  case (Suc n)
  show ?case
  proof (cases "view h v")
    case Scalar
    with Suc.prems show ?thesis by (cases v) (auto simp: grows_refl val_in_def split: if_splits obj.splits)
  next
    case (StrV s)
    with Suc.prems show ?thesis by (cases v) (auto simp: grows_refl val_in_def split: if_splits obj.splits)
  next
    case NoObject
    with Suc.prems show ?thesis by (auto simp: grows_refl)
  next
    case (DictV a d)
    let ?f = "\<lambda>(k, x). st_bind (st_deepcopy n x) (\<lambda>y. st_return (k, y))"
    let ?Q = "\<lambda>L U (p :: string \<times> val). val_in L U (snd p)"
    from Suc.prems DictV have run: "st_bind (st_map ?f d) (\<lambda>d'. st_new (ODict d')) h = (r, h')"
      by simp
    have step: "grows h1 h2 \<and> (\<forall>y. r1 = Ok y \<longrightarrow> ?Q (length h1) (length h2) y)"
      if "?f p h1 = (r1, h2)" for p h1 r1 h2
    proof -
      obtain k x where p: "p = (k, x)" by (cases p)
      from that p have "st_bind (st_deepcopy n x) (\<lambda>y. st_return (k, y)) h1 = (r1, h2)" by simp
      then show ?thesis
      proof (cases rule: st_bind_cases)
        case (ok y h3)
        with Suc.IH [OF ok(1)] show ?thesis by (auto simp: st_return_def)
      next
        case (stop r2)
        with Suc.IH [OF stop(1)] show ?thesis by auto
      qed
    qed
    from run show ?thesis
    proof (cases rule: st_bind_cases)
      case (ok d' h1)
      have "grows h h1 \<and> (\<forall>ys. Ok d' = Ok ys \<longrightarrow> list_all (?Q (length h) (length h1)) ys)"
      proof (rule st_map_post [where f = ?f and xs = d and Q = ?Q])
        show "st_map ?f d h = (Ok d', h1)" by (rule ok(1))
      next
        fix x :: "string \<times> val" and h r h' assume "?f x h = (r, h')"
        from step [OF this]
        show "grows h h' \<and> (\<forall>y. r = Ok y \<longrightarrow> val_in (length h) (length h') (snd y))"
          by simp
      next
        fix L U L' U' and y :: "string \<times> val"
        assume "val_in L U (snd y)" "L' \<le> L" "U \<le> U'"
        then show "val_in L' U' (snd y)" by (rule val_in_mono)
      qed
      then have g: "grows h h1" and q: "list_all (?Q (length h) (length h1)) d'" by auto
      have r: "r = Ok (VRef (length h1))" "h' = h1 @ [ODict d']"
        using ok(2) by (auto simp: st_new_def)
      have "refs (ODict d') \<subseteq> {length h..<length h1}"
        using q by (auto simp: list_all_iff val_in_def split: val.splits)
      from grows_new [OF g this] r grows_length [OF g] show ?thesis
        by (simp add: val_in_def)
    next
      case (stop r1)
      have "grows h h' \<and> (\<forall>ys. r1 = Ok ys \<longrightarrow> list_all (?Q (length h) (length h')) ys)"
      proof (rule st_map_post [where f = ?f and xs = d and Q = ?Q])
        show "st_map ?f d h = (r1, h')" by (rule stop(1))
      next
        fix x :: "string \<times> val" and h r h' assume "?f x h = (r, h')"
        from step [OF this]
        show "grows h h' \<and> (\<forall>y. r = Ok y \<longrightarrow> val_in (length h) (length h') (snd y))"
          by simp
      next
        fix L U L' U' and y :: "string \<times> val"
        assume "val_in L U (snd y)" "L' \<le> L" "U \<le> U'"
        then show "val_in L' U' (snd y)" by (rule val_in_mono)
      qed
      with stop show ?thesis by auto
    qed
  next
    case (ListV a xs)
    let ?Q = "\<lambda>L U (x :: val). val_in L U x"
    from Suc.prems ListV have run: "st_bind (st_map (st_deepcopy n) xs) (\<lambda>xs'. st_new (OList xs')) h = (r, h')"
      by simp
    from run show ?thesis
    proof (cases rule: st_bind_cases)
      case (ok xs' h1)
      have "grows h h1 \<and> (\<forall>ys. Ok xs' = Ok ys \<longrightarrow> list_all (?Q (length h) (length h1)) ys)"
      proof (rule st_map_post [where f = "st_deepcopy n" and xs = xs and Q = ?Q])
        show "st_map (st_deepcopy n) xs h = (Ok xs', h1)" by (rule ok(1))
      next
        fix x h r h' assume "st_deepcopy n x h = (r, h')"
        then show "grows h h' \<and> (\<forall>y. r = Ok y \<longrightarrow> val_in (length h) (length h') y)"
          by (rule Suc.IH)
      next
        fix L U L' U' and y :: val
        assume "val_in L U y" "L' \<le> L" "U \<le> U'"
        then show "val_in L' U' y" by (rule val_in_mono)
      qed
      then have g: "grows h h1" and q: "list_all (?Q (length h) (length h1)) xs'" by auto
      have r: "r = Ok (VRef (length h1))" "h' = h1 @ [OList xs']"
        using ok(2) by (auto simp: st_new_def)
      have "refs (OList xs') \<subseteq> {length h..<length h1}"
        using q by (auto simp: list_all_iff val_in_def split: val.splits)
      from grows_new [OF g this] r grows_length [OF g] show ?thesis
        by (simp add: val_in_def)
    next
      case (stop r1)
      have "grows h h' \<and> (\<forall>ys. r1 = Ok ys \<longrightarrow> list_all (?Q (length h) (length h')) ys)"
      proof (rule st_map_post [where f = "st_deepcopy n" and xs = xs and Q = ?Q])
        show "st_map (st_deepcopy n) xs h = (r1, h')" by (rule stop(1))
      next
        fix x h r h' assume "st_deepcopy n x h = (r, h')"
        then show "grows h h' \<and> (\<forall>y. r = Ok y \<longrightarrow> val_in (length h) (length h') y)"
          by (rule Suc.IH)
      next
        fix L U L' U' and y :: val
        assume "val_in L U y" "L' \<le> L" "U \<le> U'"
        then show "val_in L' U' y" by (rule val_in_mono)
      qed
      with stop show ?thesis by auto
    qed
  qed
qed

subsection \<open>Steps that leave the old objects alone\<close>

lemma keeps_givingI:
  "(\<And>h r h'. prefix h0 h \<Longrightarrow> m h = (r, h') \<Longrightarrow> prefix h0 h' \<and> (\<forall>x. r = Ok x \<longrightarrow> Q x)) \<Longrightarrow>
   keeps_giving h0 m Q"
  unfolding keeps_giving_def by blast

lemma keeps_givingD:
  "keeps_giving h0 m Q \<Longrightarrow> prefix h0 h \<Longrightarrow> m h = (r, h') \<Longrightarrow> prefix h0 h' \<and> (\<forall>x. r = Ok x \<longrightarrow> Q x)"
  unfolding keeps_giving_def by blast

lemma keeps_weaken:
  "keeps_giving h0 m Q \<Longrightarrow> (\<And>x. Q x \<Longrightarrow> Q' x) \<Longrightarrow> keeps_giving h0 m Q'"
  unfolding keeps_giving_def by blast

lemma keeps_return: "Q x \<Longrightarrow> keeps_giving h0 (st_return x) Q"
  by (rule keeps_givingI) (auto simp: st_return_def)

lemma keeps_bind:
  assumes m: "keeps_giving h0 m Q" and f: "\<And>x. Q x \<Longrightarrow> keeps_giving h0 (f x) R"
  shows "keeps_giving h0 (st_bind m f) R"
proof (rule keeps_givingI)
  fix h r h' assume h: "prefix h0 h" and run: "st_bind m f h = (r, h')"
  from run show "prefix h0 h' \<and> (\<forall>x. r = Ok x \<longrightarrow> R x)"
  proof (cases rule: st_bind_cases)
    case (ok x h1)
    from keeps_givingD [OF m h ok(1)] have "prefix h0 h1" "Q x" by simp_all
    from keeps_givingD [OF f [OF \<open>Q x\<close>] \<open>prefix h0 h1\<close> ok(2)] show ?thesis .
  next
    case (stop r1)
    from keeps_givingD [OF m h stop(1)] stop(3) show ?thesis by simp
  qed
qed

lemma keeps_if:
  "keeps_giving h0 m Q \<Longrightarrow> keeps_giving h0 m' Q \<Longrightarrow> keeps_giving h0 (if b then m else m') Q"
  by simp

lemma keeps_reads:
  "keeps_giving h0 (st_in k v) (\<lambda>_. True)"
  "keeps_giving h0 (st_get v k dflt) (\<lambda>_. True)"
  "keeps_giving h0 (st_getitem v k) (\<lambda>_. True)"
  "keeps_giving h0 (st_items v) (\<lambda>_. True)"
  "keeps_giving h0 (st_truthy v) (\<lambda>_. True)"
  by (rule keeps_givingI,
      auto simp: st_in_def st_get_def st_getitem_def st_items_def st_truthy_def
        split: shape.splits option.splits val.splits)+

lemma keeps_new: "keeps_giving h0 (st_new ob) (fresh h0)"
proof (rule keeps_givingI)
  fix h r h' assume "prefix h0 h" and "st_new ob h = (r, h')"
  then show "prefix h0 h' \<and> (\<forall>x. r = Ok x \<longrightarrow> fresh h0 x)"
    by (auto simp: st_new_def fresh_def prefix_length_le intro: prefix_order.trans)
qed

lemma keeps_get_or_new_dict: "keeps_giving h0 (st_get_or_new_dict v k) (\<lambda>_. True)"
proof (rule keeps_givingI)
  fix h r h' assume "prefix h0 h" and "st_get_or_new_dict v k h = (r, h')"
  then show "prefix h0 h' \<and> (\<forall>x. r = Ok x \<longrightarrow> True)"
    by (cases "view h v") (auto simp: st_get_or_new_dict_def intro: prefix_order.trans)
qed

lemma view_DictV: "view h v = DictV a d \<Longrightarrow> v = VRef a \<and> a < length h \<and> h ! a = ODict d"
  by (cases v) (auto split: if_splits obj.splits)

lemma keeps_setitem: "fresh h0 v \<Longrightarrow> keeps_giving h0 (st_setitem v k x) (\<lambda>_. True)"
proof (rule keeps_givingI)
  fix h r h' assume v: "fresh h0 v" and h: "prefix h0 h" and run: "st_setitem v k x h = (r, h')"
  show "prefix h0 h' \<and> (\<forall>x. r = Ok x \<longrightarrow> True)"
  proof (cases "view h v")
    case (DictV a d)
    then have "v = VRef a" by (simp add: view_DictV)
    with v have "length h0 \<le> a" by (simp add: fresh_def)
    with h have "prefix h0 (h[a := ODict (AList.update k x d)])" by (rule prefix_update_beyond)
    with run DictV show ?thesis by (simp add: st_setitem_def)
  qed (use run h in \<open>auto simp: st_setitem_def\<close>)
qed

lemma keeps_deepcopy: "keeps_giving h0 (st_deepcopy n v) (fresh h0)"
proof (rule keeps_givingI)
  fix h r h' assume h: "prefix h0 h" and run: "st_deepcopy n v h = (r, h')"
  from st_deepcopy_post [OF run] have g: "prefix h h'"
    and x: "\<And>x. r = Ok x \<Longrightarrow> val_in (length h) (length h') x"
    by (simp_all add: grows_def)
  have "length h0 \<le> length h" using h by (rule prefix_length_le)
  with x have "\<And>x. r = Ok x \<Longrightarrow> fresh h0 x"
    by (fastforce simp: val_in_def fresh_def split: val.splits)
  with h g show "prefix h0 h' \<and> (\<forall>x. r = Ok x \<longrightarrow> fresh h0 x)"
    by (auto intro: prefix_order.trans)
qed

lemma keeps_overwrite_loop:
  "fresh h0 merged \<Longrightarrow> keeps_giving h0 (st_overwrite_loop items merged) (\<lambda>_. True)"
proof (induction items)
  case Nil
  show ?case by (simp add: keeps_return)
next
  case (Cons p items)
  obtain key val where p: "p = (key, val)" by (cases p)
  show ?case
    unfolding p st_overwrite_loop.simps
    by (intro keeps_if keeps_bind [OF keeps_setitem] Cons)
qed

lemma keeps_downgrade_rule:
  assumes "fresh h0 merged"
  shows "keeps_giving h0 (st_downgrade_rule dflt merged) (\<lambda>_. True)"
  unfolding st_downgrade_rule_def
  by (intro keeps_bind [where Q = "\<lambda>_. True"] keeps_if keeps_reads keeps_return
      keeps_setitem assms TrueI)

lemma keeps_merge_graph_config:
  "keeps_giving h0 (st_merge_graph_config n eg dg) (\<lambda>_. True)"
  unfolding st_merge_graph_config_def
  by (rule keeps_bind [OF keeps_deepcopy])
    (intro keeps_bind [where Q = "\<lambda>_. True"] keeps_reads keeps_return keeps_overwrite_loop
      keeps_downgrade_rule TrueI)

lemma keeps_preserve_graph_db:
  "keeps_giving h0 (st_preserve_graph_db n e d) (\<lambda>_. True)"
  unfolding st_preserve_graph_db_def
  by (intro keeps_bind [where Q = "\<lambda>_. True"] keeps_if keeps_reads keeps_return
      keeps_get_or_new_dict keeps_weaken [OF keeps_new] keeps_merge_graph_config TrueI)

subsection \<open>Restoring the identity fields writes one object\<close>

lemma same_except_refl: "same_except x ks h h"
  by (auto simp: same_except_def split: obj.splits)

lemma same_except_trans:
  assumes "same_except x ks h h1" and "same_except x ks h1 h2"
  shows "same_except x ks h h2"
proof -
  have l1: "length h1 = length h" and l2: "length h2 = length h1"
    using assms by (simp_all add: same_except_def)
  have "if x = VRef a then
           (case h ! a of
              ODict d \<Rightarrow> (\<exists>d'. h2 ! a = ODict d' \<and> (\<forall>k. k \<notin> ks \<longrightarrow> map_of d' k = map_of d k))
            | OList xs \<Rightarrow> h2 ! a = h ! a)
         else h2 ! a = h ! a" if a: "a < length h" for a
  proof -
    from assms(1) a have 1: "if x = VRef a then
           (case h ! a of
              ODict d \<Rightarrow> (\<exists>d'. h1 ! a = ODict d' \<and> (\<forall>k. k \<notin> ks \<longrightarrow> map_of d' k = map_of d k))
            | OList xs \<Rightarrow> h1 ! a = h ! a)
         else h1 ! a = h ! a"
      unfolding same_except_def by blast
    from assms(2) a l1 have 2: "if x = VRef a then
           (case h1 ! a of
              ODict d \<Rightarrow> (\<exists>d'. h2 ! a = ODict d' \<and> (\<forall>k. k \<notin> ks \<longrightarrow> map_of d' k = map_of d k))
            | OList xs \<Rightarrow> h2 ! a = h1 ! a)
         else h2 ! a = h1 ! a"
      unfolding same_except_def by simp
    show ?thesis
    proof (cases "x = VRef a")
      case False
      with 1 2 show ?thesis by simp
    next
      case True
      show ?thesis
      proof (cases "h ! a")
        case (OList xs)
        with 1 2 True show ?thesis by simp
      next
        case (ODict d)
        with 1 True obtain d1 where d1: "h1 ! a = ODict d1" "\<forall>k. k \<notin> ks \<longrightarrow> map_of d1 k = map_of d k"
          by auto
        with 2 True obtain d2 where d2: "h2 ! a = ODict d2" "\<forall>k. k \<notin> ks \<longrightarrow> map_of d2 k = map_of d1 k"
          by auto
        from d1(2) d2(2) have "\<forall>k. k \<notin> ks \<longrightarrow> map_of d2 k = map_of d k" by simp
        with ODict True d2(1) show ?thesis by simp
      qed
    qed
  qed
  with l1 l2 show ?thesis unfolding same_except_def by simp
qed

lemma same_except_mono:
  assumes "same_except x ks h h'" and "ks \<subseteq> ks'"
  shows "same_except x ks' h h'"
proof -
  have len: "length h' = length h" using assms(1) by (simp add: same_except_def)
  have "if x = VRef a then
           (case h ! a of
              ODict d \<Rightarrow> (\<exists>d'. h' ! a = ODict d' \<and> (\<forall>k. k \<notin> ks' \<longrightarrow> map_of d' k = map_of d k))
            | OList xs \<Rightarrow> h' ! a = h ! a)
         else h' ! a = h ! a" if a: "a < length h" for a
  proof -
    from assms(1) a have 1: "if x = VRef a then
           (case h ! a of
              ODict d \<Rightarrow> (\<exists>d'. h' ! a = ODict d' \<and> (\<forall>k. k \<notin> ks \<longrightarrow> map_of d' k = map_of d k))
            | OList xs \<Rightarrow> h' ! a = h ! a)
         else h' ! a = h ! a"
      unfolding same_except_def by blast
    show ?thesis
    proof (cases "x = VRef a")
      case False
      with 1 show ?thesis by simp
    next
      case True
      show ?thesis
      proof (cases "h ! a")
        case (OList xs)
        with 1 True show ?thesis by simp
      next
        case (ODict d)
        with 1 True obtain d1 where d1: "h' ! a = ODict d1" "\<forall>k. k \<notin> ks \<longrightarrow> map_of d1 k = map_of d k"
          by auto
        from d1(2) assms(2) have "\<forall>k. k \<notin> ks' \<longrightarrow> map_of d1 k = map_of d k" by blast
        with ODict True d1(1) show ?thesis by simp
      qed
    qed
  qed
  with len show ?thesis unfolding same_except_def by simp
qed

lemma same_except_setitem:
  assumes "st_setitem x k v h = (r, h')" and "k \<in> ks"
  shows "same_except x ks h h'"
proof (cases "view h x")
  case (DictV a d)
  then have x: "x = VRef a" "a < length h" "h ! a = ODict d" by (simp_all add: view_DictV)
  from assms(1) DictV have h': "h' = h[a := ODict (AList.update k v d)]"
    by (simp add: st_setitem_def)
  show ?thesis
    unfolding same_except_def h' using x assms(2)
    by (auto simp: update_conv' nth_list_update)
qed (use assms(1) in \<open>auto simp: st_setitem_def same_except_refl\<close>)

lemma st_in_store: "st_in k v h = (r, h') \<Longrightarrow> h' = h"
  by (auto simp: st_in_def split: shape.splits)

lemma st_getitem_store: "st_getitem v k h = (r, h') \<Longrightarrow> h' = h"
  by (auto simp: st_getitem_def split: shape.splits option.splits)

lemma st_truthy_store: "st_truthy v h = (r, h') \<Longrightarrow> h' = h"
  by (auto simp: st_truthy_def split: shape.splits val.splits)

lemma st_restore_fields_same_except:
  "st_restore_fields fs e x h = (r, h') \<Longrightarrow> same_except x (set fs) h h'"
proof (induction fs arbitrary: h r h')
  case Nil
  then show ?case by (simp add: st_return_def same_except_refl)
next
  case (Cons f fs)
  have mono: "same_except x (set fs) h1 h2 \<Longrightarrow> same_except x (set (f # fs)) h1 h2" for h1 h2
    by (rule same_except_mono) auto
  from Cons.prems have run: "st_bind (st_in f e) (\<lambda>present.
       if present then
         st_bind (st_getitem e f) (\<lambda>v.
         st_bind (st_setitem x f v) (\<lambda>_. st_restore_fields fs e x))
       else st_restore_fields fs e x) h = (r, h')"
    by simp
  from run show ?case
  proof (cases rule: st_bind_cases)
    case (stop r1)
    from st_in_store [OF stop(1)] show ?thesis by (simp add: same_except_refl)
  next
    case (ok present h1)
    from st_in_store [OF ok(1)] have h1: "h1 = h" .
    show ?thesis
    proof (cases present)
      case False
      with ok(2) h1 have "st_restore_fields fs e x h = (r, h')" by simp
      from Cons.IH [OF this] show ?thesis by (rule mono)
    next
      case True
      with ok(2) h1 have "st_bind (st_getitem e f) (\<lambda>v.
         st_bind (st_setitem x f v) (\<lambda>_. st_restore_fields fs e x)) h = (r, h')" by simp
      then show ?thesis
      proof (cases rule: st_bind_cases)
        case (stop r2)
        from st_getitem_store [OF stop(1)] show ?thesis by (simp add: same_except_refl)
      next
        case (ok v h2)
        from st_getitem_store [OF ok(1)] have h2: "h2 = h" .
        from ok(2) show ?thesis
        proof (cases rule: st_bind_cases)
          case (stop r3)
          from same_except_setitem [OF stop(1)] h2 show ?thesis by simp
        next
          case (ok u h3)
          from same_except_setitem [OF ok(1)] h2 have "same_except x (set (f # fs)) h h3" by simp
          moreover from Cons.IH [OF ok(2)] have "same_except x (set (f # fs)) h3 h'" by (rule mono)
          ultimately show ?thesis by (rule same_except_trans)
        qed
      qed
    qed
  qed
qed

subsection \<open>The last assignment goes into the copy\<close>

lemma prefixI_nth:
  assumes "length h0 \<le> length h" and "\<And>a. a < length h0 \<Longrightarrow> h ! a = h0 ! a"
  shows "prefix h0 h"
proof -
  have "take (length h0) h = h0"
    using assms by (intro nth_equalityI) simp_all
  then show ?thesis by (metis take_is_prefix)
qed

lemma same_except_prefix:
  assumes "prefix h0 h1" and "fresh h0 x" and "same_except x ks h1 h2"
  shows "prefix h0 h2"
proof (rule prefixI_nth)
  have len: "length h2 = length h1" using assms(3) by (simp add: same_except_def)
  have l0: "length h0 \<le> length h1" using assms(1) by (rule prefix_length_le)
  with len show "length h0 \<le> length h2" by simp
  fix a assume a: "a < length h0"
  with assms(2) have "x \<noteq> VRef a" by (auto simp: fresh_def)
  moreover from a l0 have "a < length h1" by simp
  ultimately have "h2 ! a = h1 ! a" using assms(3) unfolding same_except_def by simp
  also have "h1 ! a = h0 ! a" using assms(1) a by (rule prefix_nth)
  finally show "h2 ! a = h0 ! a" .
qed

lemma st_getitem_Ok:
  "st_getitem v k h = (Ok x, h') \<Longrightarrow>
   \<exists>a d. v = VRef a \<and> a < length h \<and> h ! a = ODict d \<and> map_of d k = Some x"
  by (cases "view h v") (auto simp: st_getitem_def dest: view_DictV split: option.splits)

lemma refs_dict: "map_of d k = Some (VRef b) \<Longrightarrow> b \<in> refs (ODict d)"
  by (auto dest!: map_of_SomeD intro: rev_image_eqI)

lemma st_restore_graph_db_keeps:
  assumes h: "prefix h0 h"
    and key: "\<And>tm cfg. st_getitem x ''text_mem'' h = (Ok tm, h) \<Longrightarrow>
        st_getitem tm ''config'' h = (Ok cfg, h) \<Longrightarrow> fresh h0 cfg"
    and run: "st_restore_graph_db p x h = (r, h')"
  shows "prefix h0 h'"
proof (cases p)
  case None
  with run h show ?thesis by (simp add: st_restore_graph_db_def st_return_def)
next
  case (Some pv)
  with run have "st_bind (st_truthy pv) (\<lambda>preserved.
          st_bind (if preserved then st_in ''text_mem'' x else st_return False) (\<lambda>both.
            if both then
              st_bind (st_getitem x ''text_mem'') (\<lambda>text_mem.
              st_bind (st_getitem text_mem ''config'') (\<lambda>config.
                st_setitem config ''graph_db'' pv))
            else st_return ())) h = (r, h')"
    by (simp add: st_restore_graph_db_def)
  then show ?thesis
  proof (cases rule: st_bind_cases)
    case (stop r1)
    from st_truthy_store [OF stop(1)] h show ?thesis by simp
  next
    case (ok preserved h1)
    from st_truthy_store [OF ok(1)] have h1: "h1 = h" .
    from ok(2) show ?thesis
    proof (cases rule: st_bind_cases)
      case (stop r2)
      then have "h' = h1" by (auto simp: st_return_def dest: st_in_store split: if_splits)
      with h h1 show ?thesis by simp
    next
      case (ok both h2)
      then have h2: "h2 = h" using h1 by (auto simp: st_return_def dest: st_in_store split: if_splits)
      show ?thesis
      proof (cases both)
        case False
        with ok(2) h2 h show ?thesis by (simp add: st_return_def)
      next
        case True
        with ok(2) h2 have "st_bind (st_getitem x ''text_mem'') (\<lambda>text_mem.
              st_bind (st_getitem text_mem ''config'') (\<lambda>config.
                st_setitem config ''graph_db'' pv)) h = (r, h')" by simp
        then show ?thesis
        proof (cases rule: st_bind_cases)
          case (stop r3)
          from st_getitem_store [OF stop(1)] h show ?thesis by simp
        next
          case (ok tm h3)
          from st_getitem_store [OF ok(1)] have h3: "h3 = h" .
          from ok(2) show ?thesis
          proof (cases rule: st_bind_cases)
            case (stop r4)
            from st_getitem_store [OF stop(1)] h h3 show ?thesis by simp
          next
            case (ok cfg h4)
            from st_getitem_store [OF ok(1)] h3 have h4: "h4 = h" by simp
            have "fresh h0 cfg"
              using \<open>st_getitem x ''text_mem'' h = (Ok tm, h3)\<close> ok(1) h3 h4 by (intro key) simp_all
            from keeps_givingD [OF keeps_setitem [OF this] h] ok(2) h4 show ?thesis by simp
          qed
        qed
      qed
    qed
  qed
qed

lemma copied_config_fresh:
  assumes h: "prefix h0 h" and g: "grows h h1" and m: "val_in (length h) (length h1) m"
    and s: "same_except m (set preserve_fields) h1 h2"
    and tm: "st_getitem m ''text_mem'' h2 = (Ok tm, h2)"
    and cfg: "st_getitem tm ''config'' h2 = (Ok cfg, h2)"
  shows "fresh h0 cfg"
proof -
  have len: "length h2 = length h1" using s by (simp add: same_except_def)
  have ord: "new_ordered (length h) h1" using g by (simp add: grows_def)
  have l0: "length h0 \<le> length h" using h by (rule prefix_length_le)
  from st_getitem_Ok [OF tm] obtain a d2 where
    a: "m = VRef a" "a < length h2" "h2 ! a = ODict d2" "map_of d2 ''text_mem'' = Some tm" by blast
  from m a(1) have a_new: "length h \<le> a" "a < length h1" by (simp_all add: val_in_def)
  from s a(1) a_new(2) have sa: "case h1 ! a of
      ODict d \<Rightarrow> (\<exists>d'. h2 ! a = ODict d' \<and> (\<forall>k. k \<notin> set preserve_fields \<longrightarrow> map_of d' k = map_of d k))
    | OList xs \<Rightarrow> h2 ! a = h1 ! a"
    unfolding same_except_def by simp
  obtain d1 where d1: "h1 ! a = ODict d1" "map_of d1 ''text_mem'' = Some tm"
  proof (cases "h1 ! a")
    case (OList xs)
    with sa a(3) show ?thesis by simp
  next
    case (ODict d)
    with sa a(3) have "\<forall>k. k \<notin> set preserve_fields \<longrightarrow> map_of d2 k = map_of d k" by auto
    then have "map_of d2 ''text_mem'' = map_of d ''text_mem''"
      by (simp add: preserve_fields_def)
    with a(4) ODict that show ?thesis by simp
  qed
  from st_getitem_Ok [OF cfg] obtain t dt where
    t: "tm = VRef t" "t < length h2" "h2 ! t = ODict dt" "map_of dt ''config'' = Some cfg" by blast
  from d1(2) t(1) have "t \<in> refs (ODict d1)" by (intro refs_dict) simp
  with d1(1) have "t \<in> refs (h1 ! a)" by simp
  with ord a_new have t_new: "length h \<le> t \<and> t < a" by (rule new_orderedD)
  then have "m \<noteq> VRef t" "t < length h1" using a(1) a_new(2) by simp_all
  with s have "h2 ! t = h1 ! t" unfolding same_except_def by simp
  with t(3) have ht: "h1 ! t = ODict dt" by simp
  show ?thesis
  proof (cases cfg)
    case (VRef c)
    with t(4) have "c \<in> refs (ODict dt)" by (intro refs_dict) simp
    with ht have "c \<in> refs (h1 ! t)" by simp
    with ord t_new \<open>t < length h1\<close> have "length h \<le> c \<and> c < t" by (intro new_orderedD) simp_all
    with l0 VRef show ?thesis by (simp add: fresh_def)
  qed (simp_all add: fresh_def)
qed

lemma merge_tail_keeps:
  assumes h: "prefix h0 h"
    and run: "st_bind (st_deepcopy n d) (\<lambda>merged_dict.
       st_bind (st_restore_fields preserve_fields e merged_dict) (\<lambda>_.
       st_bind (st_restore_graph_db p merged_dict) (\<lambda>_.
         st_return merged_dict))) h = (r, h')"
  shows "prefix h0 h'"
  using run
proof (cases rule: st_bind_cases)
  case (stop r1)
  from keeps_givingD [OF keeps_deepcopy h stop(1)] show ?thesis by simp
next
  case (ok m h1)
  from st_deepcopy_post [OF ok(1)] have g: "grows h h1" and m: "val_in (length h) (length h1) m"
    by simp_all
  from keeps_givingD [OF keeps_deepcopy h ok(1)] have h1: "prefix h0 h1" and fm: "fresh h0 m"
    by simp_all
  from ok(2) show ?thesis
  proof (cases rule: st_bind_cases)
    case (stop r2)
    from st_restore_fields_same_except [OF stop(1)] h1 fm show ?thesis
      by (auto intro: same_except_prefix)
  next
    case (ok u h2)
    have s: "same_except m (set preserve_fields) h1 h2"
      using ok(1) by (rule st_restore_fields_same_except)
    with h1 fm have h2: "prefix h0 h2" by (rule same_except_prefix)
    have key: "fresh h0 cfg"
      if "st_getitem m ''text_mem'' h2 = (Ok tm, h2)" "st_getitem tm ''config'' h2 = (Ok cfg, h2)"
      for tm cfg
      using h g m s that by (rule copied_config_fresh)
    from ok(2) show ?thesis
    proof (cases rule: st_bind_cases)
      case (stop r3)
      from h2 key stop(1) show ?thesis by (rule st_restore_graph_db_keeps)
    next
      case (ok w h3)
      from h2 key ok(1) have "prefix h0 h3" by (rule st_restore_graph_db_keeps)
      with ok(2) show ?thesis by (simp add: st_return_def)
    qed
  qed
qed

lemma merge_store_keeps: "prefix h0 h \<Longrightarrow> prefix h0 (snd (merge_store n e d h))"
proof -
  assume h: "prefix h0 h"
  obtain r h' where run: "merge_store n e d h = (r, h')" by (cases "merge_store n e d h")
  from run [unfolded merge_store_def] have "prefix h0 h'"
  proof (cases rule: st_bind_cases)
    case (stop r1)
    from keeps_givingD [OF keeps_preserve_graph_db h stop(1)] show ?thesis by simp
  next
    case (ok p h1)
    from keeps_givingD [OF keeps_preserve_graph_db h ok(1)] have "prefix h0 h1" by simp
    then show ?thesis using ok(2) by (rule merge_tail_keeps)
  qed
  with run show ?thesis by simp
qed

subsection \<open>Reading a tree from a store that has grown\<close>

lemma those_SomeD: "those xs = Some ys \<Longrightarrow> x \<in> set xs \<Longrightarrow> x \<noteq> None"
  by (induction xs arbitrary: ys) (auto split: option.splits)

lemma tree_of_prefix:
  "prefix h h' \<Longrightarrow> tree_of n h v = Some t \<Longrightarrow> tree_of n h' v = Some t"
proof (induction n arbitrary: v t)
  case 0
  then show ?case by simp
next
  case (Suc n)
  have same: "tree_of n h' x = tree_of n h x" if "tree_of n h x \<noteq> None" for x
    using that Suc.IH [OF Suc.prems(1), of x] by auto
  show ?case
  proof (cases v)
    case (VRef a)
    with Suc.prems(2) have a: "a < length h" by (simp split: if_splits)
    with Suc.prems(1) have a': "a < length h'" "h' ! a = h ! a"
      using prefix_length_le [of h h'] by (simp_all add: prefix_nth)
    show ?thesis
    proof (cases "h ! a")
      case (ODict d)
      let ?f = "\<lambda>h (k, x). map_option (Pair k) (tree_of n h x)"
      from Suc.prems(2) VRef a ODict obtain ts where ts: "those (map (?f h) d) = Some ts"
        by (auto split: option.splits)
      have "?f h' p = ?f h p" if "p \<in> set d" for p
      proof -
        obtain k x where p: "p = (k, x)" by (cases p)
        from those_SomeD [OF ts, of "?f h p"] that have "?f h p \<noteq> None" by simp
        with p have "tree_of n h x \<noteq> None" by auto
        from same [OF this] p show ?thesis by simp
      qed
      then have eq: "map (?f h') d = map (?f h) d" by simp
      have "tree_of (Suc n) h' (VRef a) = map_option JObj (those (map (?f h') d))"
        using a' ODict by simp
      also have "\<dots> = map_option JObj (those (map (?f h) d))" by (simp only: eq)
      also have "\<dots> = tree_of (Suc n) h (VRef a)" using a ODict by simp
      finally show ?thesis using Suc.prems(2) VRef by simp
    next
      case (OList xs)
      from Suc.prems(2) VRef a OList obtain ts where ts: "those (map (tree_of n h) xs) = Some ts"
        by (auto split: option.splits)
      have "tree_of n h' x = tree_of n h x" if "x \<in> set xs" for x
      proof -
        from those_SomeD [OF ts, of "tree_of n h x"] that have "tree_of n h x \<noteq> None" by simp
        then show ?thesis by (rule same)
      qed
      then have eq: "map (tree_of n h') xs = map (tree_of n h) xs" by simp
      have "tree_of (Suc n) h' (VRef a) = map_option JList (those (map (tree_of n h') xs))"
        using a' OList by simp
      also have "\<dots> = map_option JList (those (map (tree_of n h) xs))" by (simp only: eq)
      also have "\<dots> = tree_of (Suc n) h (VRef a)" using a OList by simp
      finally show ?thesis using Suc.prems(2) VRef by simp
    qed
  qed (use Suc.prems(2) in simp_all)
qed

subsection \<open>A deep copy has fuel enough for a tree that can be read\<close>

lemma st_map_returns:
  assumes f: "\<And>x h1. x \<in> set xs \<Longrightarrow> prefix h h1 \<Longrightarrow>
        \<exists>y h2. f x h1 = (Ok y, h2) \<and> prefix h1 h2 \<and> R h2 x y"
    and stable: "\<And>x y h2 h3. R h2 x y \<Longrightarrow> prefix h2 h3 \<Longrightarrow> R h3 x y"
    and h1: "prefix h h1"
  shows "\<exists>ys h2. st_map f xs h1 = (Ok ys, h2) \<and> prefix h1 h2 \<and> list_all2 (R h2) xs ys"
  using f h1
proof (induction xs arbitrary: h1)
  case Nil
  then show ?case by (simp add: st_return_def)
next
  case (Cons x xs)
  from Cons.prems(1) [of x h1] Cons.prems(2) obtain y h2 where
    y: "f x h1 = (Ok y, h2)" "prefix h1 h2" "R h2 x y" by auto
  from Cons.prems(2) y(2) have "prefix h h2" by (rule prefix_order.trans)
  moreover have "\<exists>y h2. f z h1 = (Ok y, h2) \<and> prefix h1 h2 \<and> R h2 z y"
    if "z \<in> set xs" "prefix h h1" for z h1
    using that Cons.prems(1) [of z h1] by simp
  ultimately obtain ys h3 where
    ys: "st_map f xs h2 = (Ok ys, h3)" "prefix h2 h3" "list_all2 (R h3) xs ys"
    using Cons.IH [of h2] by blast
  have "st_map f (x # xs) h1 = (Ok (y # ys), h3)"
    using y(1) ys(1) by (simp add: st_bind_def st_return_def)
  moreover have "prefix h1 h3" using y(2) ys(2) by (rule prefix_order.trans)
  moreover have "R h3 x y" using y(3) ys(2) by (rule stable)
  ultimately show ?case using ys(3) by auto
qed

lemma list_all2_map_eq: "list_all2 (\<lambda>x y. g y = f x) xs ys \<Longrightarrow> map g ys = map f xs"
  by (induction xs ys rule: list_all2_induct) simp_all

lemma prefix_snoc: "prefix h (h @ [ob])"
  by simp

lemma st_deepcopy_returns:
  "tree_of n h v = Some t \<Longrightarrow>
   \<exists>v' h'. st_deepcopy n v h = (Ok v', h') \<and> prefix h h' \<and> tree_of n h' v' = Some t"
proof (induction n arbitrary: v t h)
  case 0
  then show ?case by simp
next
  case (Suc n)
  show ?case
  proof (cases v)
    case (VRef a)
    with Suc.prems have a: "a < length h" by (simp split: if_splits)
    show ?thesis
    proof (cases "h ! a")
      case (ODict d)
      let ?g = "\<lambda>h (k, x). map_option (Pair k) (tree_of n h x)"
      let ?f = "\<lambda>(k, x). st_bind (st_deepcopy n x) (\<lambda>y. st_return (k, y))"
      let ?R = "\<lambda>h2 (p :: string \<times> val) (q :: string \<times> val).
          ?g h2 q = ?g h p \<and> ?g h p \<noteq> None"
      from Suc.prems VRef a ODict obtain ts where
        ts: "those (map (?g h) d) = Some ts" and t: "t = JObj ts"
        by (auto split: option.splits)
      have "\<exists>ys h2. st_map ?f d h = (Ok ys, h2) \<and> prefix h h2 \<and> list_all2 (?R h2) d ys"
      proof (rule st_map_returns [where R = ?R and h = h])
        show "prefix h h" by simp
      next
        fix p :: "string \<times> val" and h1 assume p: "p \<in> set d" and h1: "prefix h h1"
        obtain k x where kx: "p = (k, x)" by (cases p)
        from those_SomeD [OF ts, of "?g h p"] p have "?g h p \<noteq> None" by simp
        with kx obtain tx where tx: "tree_of n h x = Some tx" by auto
        from h1 tx have "tree_of n h1 x = Some tx" by (rule tree_of_prefix)
        from Suc.IH [OF this] obtain y h2 where
          y: "st_deepcopy n x h1 = (Ok y, h2)" "prefix h1 h2" "tree_of n h2 y = Some tx" by blast
        have "?f p h1 = (Ok (k, y), h2)" using y(1) kx by (simp add: st_bind_def st_return_def)
        moreover have "?R h2 p (k, y)" using y(3) tx kx by simp
        ultimately show "\<exists>q h2. ?f p h1 = (Ok q, h2) \<and> prefix h1 h2 \<and> ?R h2 p q"
          using y(2) by blast
      next
        fix p q :: "string \<times> val" and h2 h3
        assume r: "?R h2 p q" and p23: "prefix h2 h3"
        obtain k y where q: "q = (k, y)" by (cases q)
        from r q obtain ty where "tree_of n h2 y = Some ty" by (cases "tree_of n h2 y") auto
        from tree_of_prefix [OF p23 this] this have "tree_of n h3 y = tree_of n h2 y" by simp
        with r q show "?R h3 p q" by simp
      qed
      then obtain d' h2 where
        run: "st_map ?f d h = (Ok d', h2)" and p2: "prefix h h2" and rel: "list_all2 (?R h2) d d'"
        by blast
      let ?h' = "h2 @ [ODict d']"
      have copy: "st_deepcopy (Suc n) v h = (Ok (VRef (length h2)), ?h')"
        using VRef a ODict run by (simp add: st_bind_def st_new_def)
      have "?g ?h' q = ?g h p" if "?R h2 p q" for p q
      proof -
        obtain k y where q: "q = (k, y)" by (cases q)
        from that q obtain ty where ty: "tree_of n h2 y = Some ty" by (cases "tree_of n h2 y") auto
        have "tree_of n ?h' y = Some ty" using prefix_snoc ty by (rule tree_of_prefix)
        with ty that q show ?thesis by simp
      qed
      with rel have "list_all2 (\<lambda>p q. ?g ?h' q = ?g h p) d d'"
        by (rule list_all2_mono)
      then have "map (?g ?h') d' = map (?g h) d"
        by (rule list_all2_map_eq)
      then have "tree_of (Suc n) ?h' (VRef (length h2)) = Some t"
        using ts t by simp
      moreover have "prefix h ?h'" using p2 prefix_snoc by (rule prefix_order.trans)
      ultimately show ?thesis using copy by blast
    next
      case (OList xs)
      let ?R = "\<lambda>h2 (x :: val) (y :: val). tree_of n h2 y = tree_of n h x \<and> tree_of n h x \<noteq> None"
      from Suc.prems VRef a OList obtain ts where
        ts: "those (map (tree_of n h) xs) = Some ts" and t: "t = JList ts"
        by (auto split: option.splits)
      have "\<exists>ys h2. st_map (st_deepcopy n) xs h = (Ok ys, h2) \<and> prefix h h2 \<and> list_all2 (?R h2) xs ys"
      proof (rule st_map_returns [where R = ?R and h = h])
        show "prefix h h" by simp
      next
        fix x h1 assume x: "x \<in> set xs" and h1: "prefix h h1"
        from those_SomeD [OF ts, of "tree_of n h x"] x obtain tx where tx: "tree_of n h x = Some tx"
          by auto
        from h1 tx have "tree_of n h1 x = Some tx" by (rule tree_of_prefix)
        from Suc.IH [OF this] tx
        show "\<exists>y h2. st_deepcopy n x h1 = (Ok y, h2) \<and> prefix h1 h2 \<and> ?R h2 x y"
          by auto
      next
        fix x y :: val and h2 h3
        assume r: "?R h2 x y" and p23: "prefix h2 h3"
        from r obtain ty where "tree_of n h2 y = Some ty" by (cases "tree_of n h2 y") auto
        from tree_of_prefix [OF p23 this] this have "tree_of n h3 y = tree_of n h2 y" by simp
        with r show "?R h3 x y" by simp
      qed
      then obtain xs' h2 where
        run: "st_map (st_deepcopy n) xs h = (Ok xs', h2)" and p2: "prefix h h2"
        and rel: "list_all2 (?R h2) xs xs'"
        by blast
      let ?h' = "h2 @ [OList xs']"
      have copy: "st_deepcopy (Suc n) v h = (Ok (VRef (length h2)), ?h')"
        using VRef a OList run by (simp add: st_bind_def st_new_def)
      have "tree_of n ?h' y = tree_of n h x" if "?R h2 x y" for x y
      proof -
        from that obtain ty where ty: "tree_of n h2 y = Some ty" by (cases "tree_of n h2 y") auto
        have "tree_of n ?h' y = Some ty" using prefix_snoc ty by (rule tree_of_prefix)
        with ty that show ?thesis by simp
      qed
      with rel have "list_all2 (\<lambda>x y. tree_of n ?h' y = tree_of n h x) xs xs'"
        by (rule list_all2_mono)
      then have "map (tree_of n ?h') xs' = map (tree_of n h) xs"
        by (rule list_all2_map_eq)
      then have "tree_of (Suc n) ?h' (VRef (length h2)) = Some t"
        using ts t by simp
      moreover have "prefix h ?h'" using p2 prefix_snoc by (rule prefix_order.trans)
      ultimately show ?thesis using copy by blast
    qed
  qed (use Suc.prems in auto)
qed

subsection \<open>The whole merge\<close>

lemma keeps_of_growing:
  assumes "\<And>h. prefix h (snd (m h))"
  shows "keeps_giving h0 m (\<lambda>_. True)"
proof (rule keeps_givingI)
  fix h r h' assume h: "prefix h0 h" and run: "m h = (r, h')"
  from assms [of h] run have "prefix h h'" by simp
  with h show "prefix h0 h' \<and> (\<forall>x. r = Ok x \<longrightarrow> True)" by (auto intro: prefix_order.trans)
qed

lemma keeps_merge_store: "keeps_giving h0 (merge_store n e d) (\<lambda>_. True)"
proof (rule keeps_givingI)
  fix h r h' assume "prefix h0 h" and "merge_store n e d h = (r, h')"
  with merge_store_keeps [of h0 h n e d] show "prefix h0 h' \<and> (\<forall>x. r = Ok x \<longrightarrow> True)" by simp
qed

lemma st_deepcopy_grows: "prefix h (snd (st_deepcopy n v h))"
proof -
  obtain r h' where run: "st_deepcopy n v h = (r, h')" by (cases "st_deepcopy n v h")
  from st_deepcopy_post [OF run] run show ?thesis by (simp add: grows_def)
qed

text \<open>On every sample the merge on the store builds the tree that the merge on trees builds.\<close>

lemma store_agrees_on_samples:
  "merge_trees_in_store 8 downgrade_existing downgrade_default = Some (JObj downgrade_merged)"
  "merge_trees_in_store 8 multi_existing multi_default = Some (JObj multi_merged)"
  "merge_trees_in_store 8 single_existing single_default = Some (JObj single_merged)"
  "merge_trees_in_store 8 downgrade_existing noflag_default = Some (JObj noflag_merged)"
  "merge_trees_in_store 8 plain_existing downgrade_default = Some (JObj plain_merged)"
  by code_simp+

section \<open>The claims\<close>

lemmas sample_defs = cube_tree_def downgrade_existing_def downgrade_default_def downgrade_merged_def
  multi_existing_def multi_default_def multi_merged_def single_existing_def single_default_def
  single_merged_def noflag_default_def noflag_merged_def plain_existing_def plain_merged_def

lemmas merge_defs = merge_dicts_def preserve_graph_db_def merge_graph_config_def downgrade_rule_def
  restore_graph_db_def preserve_fields_def preserve_graph_fields_def deepcopy_def

lemmas read_defs = graph_field_def graph_db_path_def

subsection \<open>The sample merges\<close>

lemma merge_downgrade: "merge_dicts downgrade_existing downgrade_default = Inr downgrade_merged"
  by (simp add: sample_defs merge_defs)

lemma merge_multi: "merge_dicts multi_existing multi_default = Inr multi_merged"
  by (simp add: sample_defs merge_defs)

lemma merge_single: "merge_dicts single_existing single_default = Inr single_merged"
  by (simp add: sample_defs merge_defs)

lemma merge_noflag: "merge_dicts downgrade_existing noflag_default = Inr noflag_merged"
  by (simp add: sample_defs merge_defs)

lemma merge_plain: "merge_dicts plain_existing downgrade_default = Inr plain_merged"
  by (simp add: sample_defs merge_defs)

subsection \<open>C1: the downgrade from multi-database mode\<close>

text \<open>
  Claim C1 says that, when the default's graph configuration has \<open>use_multi_db\<close> false
  and the existing one has it true, the merged \<open>user_name\<close> is the existing
  configuration's \<open>db_name\<close> and the merged \<open>db_name\<close> is the default's. The rule of
  lines 89--92 is written for that, but it reads \<open>db_name\<close> from
  \<open>merged_graph_config\<close> after the loop of lines 81--83 has assigned the default's
  \<open>db_name\<close> there. On the example of the specification (existing \<open>db_name\<close> A and
  \<open>user_name\<close> old, default \<open>db_name\<close> B) the function builds a tree whose
  \<open>user_name\<close> is B, not A. For every input, the lemma
  \<open>downgrade_reads_overwritten_db_name\<close> above says what the rule writes: the
  default's \<open>db_name\<close> whenever the default's graph configuration has one.
\<close>

theorem multi_db_downgrade_example:
  "merge_dicts downgrade_existing downgrade_default = Inr downgrade_merged \<and>
   graph_field downgrade_existing ''use_multi_db'' = Some (JBool True) \<and>
   graph_field downgrade_existing ''db_name'' = Some (JStr ''A'') \<and>
   graph_field downgrade_default ''use_multi_db'' = Some (JBool False) \<and>
   graph_field downgrade_default ''db_name'' = Some (JStr ''B'') \<and>
   graph_field downgrade_merged ''use_multi_db'' = Some (JBool False) \<and>
   graph_field downgrade_merged ''user_name'' = Some (JStr ''B'') \<and>
   graph_field downgrade_merged ''db_name'' = Some (JStr ''B'')"
  by (simp add: sample_defs merge_defs read_defs)



subsection \<open>C2: the identity fields\<close>

text \<open>
  Claim C2: each of \<open>user_id\<close>, \<open>cube_id\<close>, \<open>config_filename\<close> and \<open>model_schema\<close>
  that the existing configuration has keeps the existing value in the merged tree; one
  that it does not have stays as the default has it, and its absence raises nothing.
\<close>

theorem identity_fields_preserved:
  assumes "merge_dicts existing_dict default_dict = Inr merged_dict"
    and "f \<in> set preserve_fields"
  shows "map_of merged_dict f =
     (case map_of existing_dict f of Some v \<Rightarrow> Some v | None \<Rightarrow> map_of default_dict f)"
proof -
  have f: "f \<noteq> ''text_mem''" using assms(2) by (auto simp: preserve_fields_def)
  have "map_of (restore_fields preserve_fields existing_dict default_dict) f =
     (case map_of existing_dict f of Some v \<Rightarrow> Some v | None \<Rightarrow> map_of default_dict f)"
    using assms(2) by (simp only: restore_fields_map_of) (simp split: option.splits)
  moreover have "map_of merged_dict f = map_of (restore_fields preserve_fields existing_dict default_dict) f"
    using merge_dicts_inv [OF assms(1)] f by (auto simp: update_conv')
  ultimately show ?thesis by simp
qed

text \<open>On the downgrade example \<open>user_id\<close> is kept and \<open>cube_id\<close>, absent from the existing tree, is the default's.\<close>

theorem identity_fields_preserved_witness:
  "merge_dicts downgrade_existing downgrade_default = Inr downgrade_merged \<and>
   ''user_id'' \<in> set preserve_fields \<and> ''cube_id'' \<in> set preserve_fields \<and>
   map_of downgrade_existing ''user_id'' = Some (JStr ''u1'') \<and>
   map_of downgrade_default ''user_id'' = Some (JStr ''root'') \<and>
   map_of downgrade_merged ''user_id'' = Some (JStr ''u1'') \<and>
   map_of downgrade_existing ''cube_id'' = None \<and>
   map_of downgrade_merged ''cube_id'' = Some (JStr ''c0'')"
proof -
  have u: "''user_id'' \<in> set preserve_fields" and c: "''cube_id'' \<in> set preserve_fields"
    by (simp_all add: preserve_fields_def)
  from identity_fields_preserved [OF merge_downgrade u] identity_fields_preserved [OF merge_downgrade c]
    merge_downgrade u c
  show ?thesis by (simp add: sample_defs)
qed

subsection \<open>C3: the protected graph database fields\<close>

text \<open>
  Claim C3, as stated, says that under a default with \<open>use_multi_db\<close> true every graph
  database field other than \<open>auto_create\<close>, \<open>user_name\<close> and \<open>use_multi_db\<close> equals the
  default's value. The merged configuration starts as a copy of the existing one and
  only the default's own keys are assigned, so a field that only the existing
  configuration has stays: here \<open>space\<close>, which the default does not have.
\<close>

theorem other_graph_fields_counterexample:
  "merge_dicts multi_existing multi_default = Inr multi_merged \<and>
   get_path (JObj multi_existing) graph_db_path \<noteq> None \<and>
   get_path (JObj multi_default) graph_db_path \<noteq> None \<and>
   graph_field multi_default ''use_multi_db'' = Some (JBool True) \<and>
   ''space'' \<notin> preserve_graph_fields \<and>
   graph_field multi_merged ''space'' = Some (JStr ''shared'') \<and>
   graph_field multi_default ''space'' = None"
  by (simp add: sample_defs merge_defs read_defs)

text \<open>
  Claim C3, amended: under a default whose graph configuration has \<open>use_multi_db\<close> true,
  the merged \<open>auto_create\<close>, \<open>user_name\<close> and \<open>use_multi_db\<close> are the existing
  configuration's; every other field that the default's graph configuration has is
  the default's; a field that only the existing graph configuration has keeps the
  existing value.
\<close>

theorem protected_graph_fields_multi_db_default:
  assumes "merge_dicts existing_dict default_dict = Inr merged_dict"
    and "get_path (JObj existing_dict) graph_db_path \<noteq> None"
    and "get_path (JObj default_dict) graph_db_path \<noteq> None"
    and "graph_field default_dict ''use_multi_db'' = Some (JBool True)"
  shows "graph_field merged_dict k =
     (if k \<in> preserve_graph_fields then graph_field existing_dict k
      else case graph_field default_dict k of
             Some v \<Rightarrow> Some v
           | None \<Rightarrow> graph_field existing_dict k)"
proof -
  from assms(1-3) obtain eg dd v1 mg where
    eg: "get_path (JObj existing_dict) (graph_db_path @ [''config'']) = Some eg" and
    dd: "get_path (JObj default_dict) (graph_db_path @ [''config'']) = Some (JObj dd)" and
    mg: "get_path (JObj merged_dict) (graph_db_path @ [''config'']) = Some mg" and
    rule: "downgrade_rule (JObj dd) v1 = Inr mg" and
    v1: "\<And>k. field v1 k = (if k \<notin> preserve_graph_fields \<and> map_of dd k \<noteq> None then map_of dd k else field eg k)"
    using merge_dicts_graph [OF assms(1-3)] by blast
  have "map_of dd ''use_multi_db'' = Some (JBool True)"
    using assms(4) graph_field_config [OF dd] by simp
  then have "truthy (get_or (JObj dd) ''use_multi_db'' (JBool True))"
    by (simp add: get_or_def)
  from downgrade_rule_skip_dict [OF this] rule have "mg = v1" by simp
  then show ?thesis
    using v1 [of k] by (auto simp: graph_field_config [OF eg] graph_field_config [OF dd] graph_field_config [OF mg])
qed

text \<open>A protected field, a field of both, and a field of the existing configuration only.\<close>

theorem protected_graph_fields_multi_db_default_witness:
  "merge_dicts multi_existing multi_default = Inr multi_merged \<and>
   get_path (JObj multi_existing) graph_db_path \<noteq> None \<and>
   get_path (JObj multi_default) graph_db_path \<noteq> None \<and>
   graph_field multi_default ''use_multi_db'' = Some (JBool True) \<and>
   graph_field multi_merged ''user_name'' = Some (JStr ''alice'') \<and>
   graph_field multi_merged ''uri'' = Some (JStr ''bolt://new'') \<and>
   graph_field multi_merged ''space'' = Some (JStr ''shared'')"
proof -
  have e: "get_path (JObj multi_existing) graph_db_path \<noteq> None"
    and d: "get_path (JObj multi_default) graph_db_path \<noteq> None"
    and f: "graph_field multi_default ''use_multi_db'' = Some (JBool True)"
    by (simp_all add: sample_defs read_defs)
  from protected_graph_fields_multi_db_default [OF merge_multi e d f, of "''user_name''"]
    protected_graph_fields_multi_db_default [OF merge_multi e d f, of "''uri''"]
    protected_graph_fields_multi_db_default [OF merge_multi e d f, of "''space''"]
    merge_multi e d f
  show ?thesis by (simp add: sample_defs read_defs preserve_graph_fields_def)
qed

subsection \<open>C4: single-database mode on both sides\<close>

text \<open>
  Claim C4, as stated, says that with \<open>use_multi_db\<close> false in both graph
  configurations the merged \<open>user_name\<close> and \<open>db_name\<close> are the existing ones. The
  downgrade rule indeed changes nothing, but \<open>db_name\<close> is not a protected field: the
  loop before the rule has assigned the default's \<open>db_name\<close>.
\<close>

theorem single_db_db_name_counterexample:
  "merge_dicts single_existing single_default = Inr single_merged \<and>
   graph_field single_existing ''use_multi_db'' = Some (JBool False) \<and>
   graph_field single_default ''use_multi_db'' = Some (JBool False) \<and>
   graph_field single_existing ''db_name'' = Some (JStr ''A'') \<and>
   graph_field single_merged ''db_name'' = Some (JStr ''B'')"
  by (simp add: sample_defs merge_defs read_defs)

text \<open>
  Claim C4, amended: with \<open>use_multi_db\<close> false in both graph configurations the
  downgrade rule rewrites nothing; the merged \<open>use_multi_db\<close> stays false and the merged
  \<open>user_name\<close> is the existing one, while the merged \<open>db_name\<close> is what the loop left:
  the default's \<open>db_name\<close> when the default's graph configuration has one, else the
  existing one.
\<close>

theorem single_db_on_both_sides:
  assumes "merge_dicts existing_dict default_dict = Inr merged_dict"
    and "graph_field existing_dict ''use_multi_db'' = Some (JBool False)"
    and "graph_field default_dict ''use_multi_db'' = Some (JBool False)"
  shows "graph_field merged_dict ''use_multi_db'' = Some (JBool False) \<and>
     graph_field merged_dict ''user_name'' = graph_field existing_dict ''user_name'' \<and>
     graph_field merged_dict ''db_name'' =
       (case graph_field default_dict ''db_name'' of
          Some v \<Rightarrow> Some v
        | None \<Rightarrow> graph_field existing_dict ''db_name'')"
proof -
  have e: "get_path (JObj existing_dict) graph_db_path \<noteq> None"
    using assms(2) by (rule graph_field_Some)
  have d: "get_path (JObj default_dict) graph_db_path \<noteq> None"
    using assms(3) by (rule graph_field_Some)
  obtain eg dd v1 mg where
    eg: "get_path (JObj existing_dict) (graph_db_path @ [''config'']) = Some eg" and
    dd: "get_path (JObj default_dict) (graph_db_path @ [''config'']) = Some (JObj dd)" and
    mg: "get_path (JObj merged_dict) (graph_db_path @ [''config'']) = Some mg" and
    rule: "downgrade_rule (JObj dd) v1 = Inr mg" and
    v1: "\<And>k. field v1 k = (if k \<notin> preserve_graph_fields \<and> map_of dd k \<noteq> None then map_of dd k else field eg k)"
    using merge_dicts_graph [OF assms(1) e d] by blast
  have "map_of dd ''use_multi_db'' = Some (JBool False)"
    using assms(3) graph_field_config [OF dd] by simp
  then have fires: "\<not> truthy (get_or (JObj dd) ''use_multi_db'' (JBool True))"
    by (simp add: get_or_def)
  from downgrade_rule_merged_dict [OF fires rule] obtain mm where mm: "v1 = JObj mm" by blast
  have "field v1 ''use_multi_db'' = Some (JBool False)"
    using v1 [of "''use_multi_db''"] assms(2) graph_field_config [OF eg] by simp
  then have "\<not> truthy (get_or (JObj mm) ''use_multi_db'' (JBool True))"
    by (simp add: get_or_def mm)
  from downgrade_rule_noop_dict [OF fires this] rule have "mg = v1" by (simp add: mm)
  then show ?thesis
    using v1 [of "''use_multi_db''"] v1 [of "''user_name''"] v1 [of "''db_name''"] assms(2)
    by (auto simp: graph_field_config [OF eg] graph_field_config [OF dd] graph_field_config [OF mg])
qed

text \<open>On the single-database sample \<open>user_name\<close> stays and \<open>db_name\<close> becomes the default's.\<close>

theorem single_db_on_both_sides_witness:
  "merge_dicts single_existing single_default = Inr single_merged \<and>
   graph_field single_existing ''use_multi_db'' = Some (JBool False) \<and>
   graph_field single_default ''use_multi_db'' = Some (JBool False) \<and>
   graph_field single_merged ''use_multi_db'' = Some (JBool False) \<and>
   graph_field single_merged ''user_name'' = Some (JStr ''u1'') \<and>
   graph_field single_merged ''db_name'' = Some (JStr ''B'')"
proof -
  have e: "graph_field single_existing ''use_multi_db'' = Some (JBool False)"
    and d: "graph_field single_default ''use_multi_db'' = Some (JBool False)"
    by (simp_all add: sample_defs read_defs)
  from single_db_on_both_sides [OF merge_single e d] merge_single e d
  show ?thesis by (simp add: sample_defs read_defs)
qed

subsection \<open>C5: everything else comes from the default\<close>

text \<open>
  Claim C5: a field of the merged tree that is not one of the four top-level identity
  fields and does not lie under \<open>text_mem.config.graph_db\<close> has the default's value.
  A field is named by its path of keys from the top. The paths \<open>text_mem\<close> and
  \<open>text_mem.config\<close> lead to the dictionaries that contain the graph database
  section; their other entries are covered by the longer paths through them.
\<close>

theorem default_propagation:
  assumes "merge_dicts existing_dict default_dict = Inr merged_dict"
    and "k \<notin> set preserve_fields"
    and "\<not> prefix (k # ks) graph_db_path"
    and "\<not> prefix graph_db_path (k # ks)"
  shows "get_path (JObj merged_dict) (k # ks) = get_path (JObj default_dict) (k # ks)"
proof -
  let ?md = "restore_fields preserve_fields existing_dict default_dict"
  have md: "map_of ?md k = map_of default_dict k"
    using assms(2) by (rule restored_map_of)
  from merge_dicts_inv [OF assms(1)] consider
      (plain) "merged_dict = ?md"
    | (graph) p tm cfg where "map_of default_dict ''text_mem'' = Some (JObj tm)"
        "map_of tm ''config'' = Some (JObj cfg)"
        "merged_dict = AList.update ''text_mem'' (JObj (AList.update ''config''
              (JObj (AList.update ''graph_db'' p cfg)) tm)) ?md"
    by blast
  then show ?thesis
  proof cases
    case plain
    with md show ?thesis by simp
  next
    case (graph p tm cfg)
    note tm = graph(1) and cfg = graph(2) and m = graph(3)
    show ?thesis
    proof (cases "k = ''text_mem''")
      case False
      with m md show ?thesis by (simp add: update_conv')
    next
      case True
      with assms(3) obtain k2 ks2 where ks: "ks = k2 # ks2"
        by (cases ks) (auto simp: graph_db_path_def)
      show ?thesis
      proof (cases "k2 = ''config''")
        case False
        with True m tm ks show ?thesis by (simp add: update_conv')
      next
        case k2: True
        with True ks assms(3) obtain k3 ks3 where ks2: "ks2 = k3 # ks3"
          by (cases ks2) (auto simp: graph_db_path_def)
        with True ks k2 assms(4) have "k3 \<noteq> ''graph_db''"
          by (auto simp: graph_db_path_def)
        with True m tm cfg ks k2 ks2 show ?thesis by (simp add: update_conv')
      qed
    qed
  qed
qed

text \<open>The extractor model named in the text memory's configuration is the default's.\<close>

theorem default_propagation_witness:
  "merge_dicts multi_existing multi_default = Inr multi_merged \<and>
   ''text_mem'' \<notin> set preserve_fields \<and>
   \<not> prefix [''text_mem'', ''config'', ''extractor_llm''] graph_db_path \<and>
   \<not> prefix graph_db_path [''text_mem'', ''config'', ''extractor_llm''] \<and>
   get_path (JObj multi_existing) [''text_mem'', ''config'', ''extractor_llm''] = Some (JStr ''old-model'') \<and>
   get_path (JObj multi_merged) [''text_mem'', ''config'', ''extractor_llm''] = Some (JStr ''new-model'')"
proof -
  have k: "''text_mem'' \<notin> set preserve_fields"
    and p: "\<not> prefix [''text_mem'', ''config'', ''extractor_llm''] graph_db_path"
    and q: "\<not> prefix graph_db_path [''text_mem'', ''config'', ''extractor_llm'']"
    by (simp_all add: preserve_fields_def graph_db_path_def)
  from default_propagation [OF merge_multi k p q] merge_multi k p q
  show ?thesis by (simp add: sample_defs)
qed

subsection \<open>C6: the backend tag\<close>

text \<open>
  Claim C6: when both trees have \<open>text_mem.config.graph_db\<close>, the merged
  \<open>text_mem.config.graph_db.backend\<close> is the existing configuration's backend tag,
  whatever the default's is.
\<close>

theorem backend_from_existing:
  assumes "merge_dicts existing_dict default_dict = Inr merged_dict"
    and "get_path (JObj existing_dict) graph_db_path \<noteq> None"
    and "get_path (JObj default_dict) graph_db_path \<noteq> None"
  shows "\<exists>backend. get_path (JObj existing_dict) (graph_db_path @ [''backend'']) = Some backend \<and>
     get_path (JObj merged_dict) (graph_db_path @ [''backend'']) = Some backend"
  using merge_dicts_inv [OF assms(1)] assms(2,3)
  by (auto simp: get_path_graph_db_merged)

text \<open>The existing backend is \<open>nebular\<close>, the default's \<open>neo4j\<close>; the merged tree says \<open>nebular\<close>.\<close>

theorem backend_from_existing_witness:
  "merge_dicts multi_existing multi_default = Inr multi_merged \<and>
   get_path (JObj multi_existing) graph_db_path \<noteq> None \<and>
   get_path (JObj multi_default) graph_db_path \<noteq> None \<and>
   get_path (JObj multi_default) (graph_db_path @ [''backend'']) = Some (JStr ''neo4j'') \<and>
   get_path (JObj multi_merged) (graph_db_path @ [''backend'']) = Some (JStr ''nebular'')"
proof -
  have e: "get_path (JObj multi_existing) graph_db_path \<noteq> None"
    and d: "get_path (JObj multi_default) graph_db_path \<noteq> None"
    by (simp_all add: sample_defs read_defs)
  from backend_from_existing [OF merge_multi e d] merge_multi e d
  show ?thesis by (simp add: sample_defs read_defs)
qed

subsection \<open>C7: no graph database on one side\<close>

text \<open>
  Claim C7: when the existing tree or the default tree has no
  \<open>text_mem.config.graph_db\<close>, nothing is merged for the graph database
  (\<open>preserved_graph_db\<close> stays \<open>None\<close>) and the merged \<open>text_mem\<close> section is the
  default's; the identity fields are top-level and do not touch it.
\<close>

theorem no_graph_db_pass_through:
  assumes "merge_dicts existing_dict default_dict = Inr merged_dict"
    and "get_path (JObj existing_dict) graph_db_path = None \<or>
         get_path (JObj default_dict) graph_db_path = None"
  shows "preserve_graph_db existing_dict default_dict = Inr None \<and>
     map_of merged_dict ''text_mem'' = map_of default_dict ''text_mem''"
proof -
  from assms(1) obtain r where r: "preserve_graph_db existing_dict default_dict = Inr r"
    and m: "restore_graph_db r (restore_fields preserve_fields existing_dict default_dict) = Inr merged_dict"
    by (auto simp: merge_dicts_def and_then_eq_Inr)
  have "r = None"
    using preserve_graph_db_inv [OF r] assms(2) by (auto simp: get_path_append)
  with m have "merged_dict = restore_fields preserve_fields existing_dict default_dict"
    by (simp add: restore_graph_db_None)
  with r \<open>r = None\<close> show ?thesis
    by (simp add: restored_map_of [OF text_mem_not_preserved])
qed

text \<open>An existing tree without a graph database: the merged \<open>text_mem\<close> is the default's, not the existing one.\<close>

theorem no_graph_db_pass_through_witness:
  "merge_dicts plain_existing downgrade_default = Inr plain_merged \<and>
   get_path (JObj plain_existing) graph_db_path = None \<and>
   preserve_graph_db plain_existing downgrade_default = Inr None \<and>
   map_of plain_merged ''text_mem'' = map_of downgrade_default ''text_mem'' \<and>
   map_of plain_merged ''text_mem'' \<noteq> map_of plain_existing ''text_mem''"
proof -
  have e: "get_path (JObj plain_existing) graph_db_path = None \<or>
      get_path (JObj downgrade_default) graph_db_path = None"
    by (simp add: sample_defs read_defs)
  from no_graph_db_pass_through [OF merge_plain e] merge_plain
  show ?thesis by (simp add: sample_defs read_defs)
qed

subsection \<open>C8: the inputs are not changed\<close>

text \<open>
  Claim C8: whether the call returns or raises, the existing and the default record
  are afterwards what they were before; the function assigns only into trees that it
  has dumped or deep-copied itself. Here for every store, every bound on the copies
  and every outcome: no object that exists before the call is changed, so every tree
  that can be read before the call reads the same after it. The records are among
  these objects, and so are the two dumps once they are made. For \<open>model_dump\<close> and
  \<open>model_validate\<close>, whose code is elsewhere, the theorem asks what a dump and a
  validation do: they build new objects and leave the old ones alone.
\<close>

theorem inputs_not_mutated:
  assumes dump: "\<And>c h. prefix h (snd (model_dump c h))"
    and validate: "\<And>v h. prefix h (snd (model_validate v h))"
  shows "prefix h (snd (merge_config_store fuel model_dump model_validate existing_config default_config h)) \<and>
     (\<forall>k v t. tree_of k h v = Some t \<longrightarrow>
        tree_of k (snd (merge_config_store fuel model_dump model_validate
          existing_config default_config h)) v = Some t)"
proof -
  let ?run = "merge_config_store fuel model_dump model_validate existing_config default_config"
  have "keeps_giving h ?run (\<lambda>_. True)"
    unfolding merge_config_store_def
    by (intro keeps_bind [where Q = "\<lambda>_. True"] keeps_of_growing dump validate keeps_merge_store)
  moreover obtain r h' where run: "?run h = (r, h')" by (cases "?run h")
  ultimately have "prefix h h'" using keeps_givingD [of h ?run "\<lambda>_. True" h r h'] by simp
  with run show ?thesis by (auto intro: tree_of_prefix)
qed

text \<open>
  On the sample store, with a deep copy for the dump and a validation that accepts
  the tree: the call returns the merged tree of the downgrade example, and both
  inputs still read as before.
\<close>

lemma sample_result:
  "fst (merge_config_store 6 (st_deepcopy 6) st_return (VRef 4) (VRef 9) sample_store) = Ok (VRef 28)"
  by code_simp

lemma sample_merged:
  "tree_of 6 (snd (merge_config_store 6 (st_deepcopy 6) st_return (VRef 4) (VRef 9) sample_store)) (VRef 28) =
     Some (JObj downgrade_merged)"
  by code_simp

lemma sample_before:
  "tree_of 6 sample_store (VRef 4) = Some (JObj downgrade_existing)"
  "tree_of 6 sample_store (VRef 9) = Some (JObj downgrade_default)"
  by code_simp+

theorem inputs_not_mutated_witness:
  "(\<forall>c h. prefix h (snd (st_deepcopy 6 c h))) \<and>
   (\<forall>(v :: val) h. prefix h (snd (st_return v h))) \<and>
   fst (merge_config_store 6 (st_deepcopy 6) st_return (VRef 4) (VRef 9) sample_store) = Ok (VRef 28) \<and>
   prefix sample_store
     (snd (merge_config_store 6 (st_deepcopy 6) st_return (VRef 4) (VRef 9) sample_store)) \<and>
   tree_of 6 sample_store (VRef 4) = Some (JObj downgrade_existing) \<and>
   tree_of 6 (snd (merge_config_store 6 (st_deepcopy 6) st_return (VRef 4) (VRef 9) sample_store)) (VRef 4) =
     Some (JObj downgrade_existing) \<and>
   tree_of 6 sample_store (VRef 9) = Some (JObj downgrade_default) \<and>
   tree_of 6 (snd (merge_config_store 6 (st_deepcopy 6) st_return (VRef 4) (VRef 9) sample_store)) (VRef 9) =
     Some (JObj downgrade_default) \<and>
   tree_of 6 (snd (merge_config_store 6 (st_deepcopy 6) st_return (VRef 4) (VRef 9) sample_store)) (VRef 28) =
     Some (JObj downgrade_merged)"
proof -
  have dump: "\<And>c h. prefix h (snd (st_deepcopy 6 c h))" by (rule st_deepcopy_grows)
  have validate: "\<And>(v :: val) h. prefix h (snd (st_return v h))" by (simp add: st_return_def)
  note main = inputs_not_mutated [of "st_deepcopy 6" st_return sample_store 6 "VRef 4" "VRef 9",
      OF dump validate]
  from main have kept: "prefix sample_store
      (snd (merge_config_store 6 (st_deepcopy 6) st_return (VRef 4) (VRef 9) sample_store))"
    by (rule conjunct1)
  from main have same: "tree_of k
      (snd (merge_config_store 6 (st_deepcopy 6) st_return (VRef 4) (VRef 9) sample_store)) v = Some t"
    if "tree_of k sample_store v = Some t" for k v t
    using that by blast
  show ?thesis
    using dump validate sample_result kept sample_before
      same [OF sample_before(1)] same [OF sample_before(2)] sample_merged
    by (intro conjI allI)
qed

subsection \<open>C9: a failed validation\<close>

text \<open>
  Claim C9: when the assembled tree does not pass \<open>model_validate\<close>, the call ends with
  \<open>ValidationError\<close> and returns no record; nothing catches the exception.
\<close>

theorem validation_failure_propagates:
  assumes "merge_dicts (model_dump existing_config) (model_dump default_config) = Inr merged_dict"
    and "model_validate merged_dict = None"
  shows "merge_config_with_default model_dump model_validate existing_config default_config =
     Inl ValidationError"
  using assms by (simp add: merge_config_with_default_def)

text \<open>Neither sample has a \<open>cube_id\<close>, so the merged tree has none either.\<close>

theorem validation_failure_propagates_witness:
  "merge_dicts single_existing single_default = Inr single_merged \<and>
   needs_cube_id single_merged = None \<and>
   merge_config_with_default (\<lambda>c. c) needs_cube_id single_existing single_default =
     Inl ValidationError"
proof -
  have v: "needs_cube_id single_merged = None"
    by (simp add: needs_cube_id_def sample_defs)
  from validation_failure_propagates [of "\<lambda>c. c" single_existing single_default single_merged needs_cube_id,
      OF merge_single v] merge_single v
  show ?thesis by simp
qed

subsection \<open>C10: a default without \<open>use_multi_db\<close>\<close>

text \<open>
  Claim C10: when both trees have \<open>text_mem.config.graph_db\<close> and the default's graph
  configuration has no \<open>use_multi_db\<close> key, the key counts as true, the downgrade rule
  does not run, and the merged \<open>use_multi_db\<close> and \<open>user_name\<close> are the existing
  ones; \<open>db_name\<close> is not carried over into \<open>user_name\<close>.
\<close>

theorem absent_default_flag_counts_as_true:
  assumes "merge_dicts existing_dict default_dict = Inr merged_dict"
    and "get_path (JObj existing_dict) graph_db_path \<noteq> None"
    and "get_path (JObj default_dict) graph_db_path \<noteq> None"
    and "graph_field default_dict ''use_multi_db'' = None"
  shows "graph_field merged_dict ''use_multi_db'' = graph_field existing_dict ''use_multi_db'' \<and>
     graph_field merged_dict ''user_name'' = graph_field existing_dict ''user_name'' \<and>
     graph_field merged_dict ''db_name'' =
       (case graph_field default_dict ''db_name'' of
          Some v \<Rightarrow> Some v
        | None \<Rightarrow> graph_field existing_dict ''db_name'')"
proof -
  from assms(1-3) obtain eg dd v1 mg where
    eg: "get_path (JObj existing_dict) (graph_db_path @ [''config'']) = Some eg" and
    dd: "get_path (JObj default_dict) (graph_db_path @ [''config'']) = Some (JObj dd)" and
    mg: "get_path (JObj merged_dict) (graph_db_path @ [''config'']) = Some mg" and
    rule: "downgrade_rule (JObj dd) v1 = Inr mg" and
    v1: "\<And>k. field v1 k = (if k \<notin> preserve_graph_fields \<and> map_of dd k \<noteq> None then map_of dd k else field eg k)"
    using merge_dicts_graph [OF assms(1-3)] by blast
  have "map_of dd ''use_multi_db'' = None"
    using assms(4) graph_field_config [OF dd] by simp
  then have "truthy (get_or (JObj dd) ''use_multi_db'' (JBool True))"
    by (simp add: get_or_def)
  from downgrade_rule_skip_dict [OF this] rule have "mg = v1" by simp
  then show ?thesis
    using v1 [of "''use_multi_db''"] v1 [of "''user_name''"] v1 [of "''db_name''"]
    by (auto simp: graph_field_config [OF eg] graph_field_config [OF dd] graph_field_config [OF mg])
qed

text \<open>The existing flag is true and stays true; \<open>user_name\<close> stays \<open>old\<close>.\<close>

theorem absent_default_flag_counts_as_true_witness:
  "merge_dicts downgrade_existing noflag_default = Inr noflag_merged \<and>
   get_path (JObj downgrade_existing) graph_db_path \<noteq> None \<and>
   get_path (JObj noflag_default) graph_db_path \<noteq> None \<and>
   graph_field noflag_default ''use_multi_db'' = None \<and>
   graph_field noflag_merged ''use_multi_db'' = Some (JBool True) \<and>
   graph_field noflag_merged ''user_name'' = Some (JStr ''old'') \<and>
   graph_field noflag_merged ''db_name'' = Some (JStr ''B'')"
proof -
  have e: "get_path (JObj downgrade_existing) graph_db_path \<noteq> None"
    and d: "get_path (JObj noflag_default) graph_db_path \<noteq> None"
    and f: "graph_field noflag_default ''use_multi_db'' = None"
    by (simp_all add: sample_defs read_defs)
  from absent_default_flag_counts_as_true [OF merge_noflag e d f] merge_noflag e d f
  show ?thesis by (simp add: sample_defs read_defs)
qed

end
